theory Spec2Isabelle
  imports Main "HOL-Library.Word" "HOL-Library.Multiset" "HOL-Library.Sublist"
begin

section \<open>Authentication (authplugin.cpp)\<close>

text \<open>
  The authentication facade of the broker: a Mosquitto-style password file and an
  optional external plugin. The mutexes of the source only serialise calls and are not
  part of the sequential model; logging is left out.
\<close>

subsection \<open>Data\<close>

text \<open>
  The enumerators of \<open>AuthResult\<close> are the four that \<open>AuthResultToString\<close> names.
  A plugin returns a C int that the source casts to the enum; a value that is none of
  the enumerators is kept as \<open>auth_other\<close>. The header with the enumerators' numbers is
  not among the sources, so the cast is a parameter of the model (field
  \<open>to_AuthResult\<close> of the plugin).
\<close>

datatype AuthResult = success | acl_denied | login_denied | error | auth_other int

datatype exn = AuthPluginException | RuntimeError

type_synonym AuthOpts = "(string \<times> string) list"

text \<open>\<open>AclAccess\<close> is passed to the plugin as its integer value.\<close>

type_synonym AclAccess = int

record Settings =
  allowAnonymous :: bool
  authOpts :: AuthOpts

record MosquittoPasswordFileEntry =
  salt :: "char list"
  cryptedPassword :: "char list"

record timespec =
  tv_sec :: "64 word"
  tv_nsec :: "64 word"

text \<open>
  The functions the shared object exports, over the plugin's own data \<open>'p\<close>
  (\<open>pluginData\<close> in the source). Each returns its C result and the plugin data
  as the call left it.
\<close>

record 'p Plugin =
  security_init_v2 :: "'p \<Rightarrow> AuthOpts \<Rightarrow> bool \<Rightarrow> int \<times> 'p"
  security_cleanup_v2 :: "'p \<Rightarrow> AuthOpts \<Rightarrow> bool \<Rightarrow> int \<times> 'p"
  acl_check_v2 :: "'p \<Rightarrow> string \<Rightarrow> string \<Rightarrow> string \<Rightarrow> int \<Rightarrow> int \<times> 'p"
  unpwd_check_v2 :: "'p \<Rightarrow> string \<Rightarrow> string \<Rightarrow> int \<times> 'p"
  to_AuthResult :: "int \<Rightarrow> AuthResult"

text \<open>
  The fields of class \<open>Authentication\<close>. \<open>mosquittoPasswordEntries\<close> is a
  \<open>unique_ptr\<close> to the table: \<open>None\<close> is the null pointer before the first load.
\<close>

record 'p Authentication =
  settings :: Settings
  mosquittoPasswordFile :: string
  mosquittoPasswordEntries :: "(string \<rightharpoonup> MosquittoPasswordFileEntry) option"
  mosquittoPasswordFileLastLoad :: timespec
  useExternalPlugin :: bool
  initialized :: bool
  quitting :: bool
  pluginData :: "'p"

subsection \<open>Plugin life cycle\<close>

text \<open>
  A method that can throw returns the exception (if any) together with the object as
  the method left it: the assignments made before the throw stay.
\<close>

definition securityInit ::
  "'p Plugin \<Rightarrow> bool \<Rightarrow> 'p Authentication \<Rightarrow> exn option \<times> 'p Authentication" where
  "securityInit P reloading a =
     (if \<not> useExternalPlugin a then (None, a)
      else if quitting a then (None, a)
      else
        let (result, pd) = security_init_v2 P (pluginData a) (authOpts (settings a)) reloading;
            a1 = a\<lparr>pluginData := pd\<rparr>
        in if result \<noteq> 0 then (Some AuthPluginException, a1)
           else (None, a1\<lparr>initialized := True\<rparr>))"

definition securityCleanup ::
  "'p Plugin \<Rightarrow> bool \<Rightarrow> 'p Authentication \<Rightarrow> exn option \<times> 'p Authentication" where
  "securityCleanup P reloading a =
     (if \<not> useExternalPlugin a then (None, a)
      else
        let a1 = a\<lparr>initialized := False\<rparr>;
            (result, pd) = security_cleanup_v2 P (pluginData a1) (authOpts (settings a1)) reloading;
            a2 = a1\<lparr>pluginData := pd\<rparr>
        in if result \<noteq> 0 then (Some AuthPluginException, a2) else (None, a2))"

text \<open>
  \<open>ThreadData::reload\<close>, on the thread's \<open>authPlugin\<close>: the \<open>try\<close> block runs
  the cleanup and then the init; an \<open>AuthPluginException\<close> of either is caught (and
  logged), so \<open>reload\<close> itself never throws.
\<close>

definition reload :: "'p Plugin \<Rightarrow> 'p Authentication \<Rightarrow> 'p Authentication" where
  "reload P a =
     (case securityCleanup P True a of
        (Some ex, a1) \<Rightarrow> a1
      | (None, a1) \<Rightarrow> snd (securityInit P True a1))"

definition setQuitting :: "'p Authentication \<Rightarrow> 'p Authentication" where
  "setQuitting a = a\<lparr>quitting := True\<rparr>"

subsection \<open>The password file\<close>

text \<open>
  What \<open>access\<close>, \<open>stat\<close> and reading the file give at the moment of a call:
  \<open>None\<close> for \<open>st_ctim\<close> is a failing \<open>stat\<close>.
\<close>

record PasswdFile =
  readable :: bool
  st_ctim :: "timespec option"
  content :: "string list"

text \<open>
  The helpers of utils.cpp are not among the sources; \<open>loadMosquittoPasswordFile\<close>
  takes them as parameters: \<open>splitToVector\<close> with its default arguments,
  \<open>splitToVector\<close> with all four arguments, and \<open>base64Decode\<close> (\<open>None\<close>
  when it throws).
\<close>

record Utils =
  splitToVector :: "string \<Rightarrow> char \<Rightarrow> string list"
  splitToVector4 :: "string \<Rightarrow> char \<Rightarrow> nat \<Rightarrow> bool \<Rightarrow> string list"
  base64Decode :: "string \<Rightarrow> char list option"

text \<open>
  The body of the inner \<open>try\<close> for one line: \<open>None\<close> when it throws (the line is
  dropped), otherwise the user name and the entry to \<open>emplace\<close>.
\<close>

definition parseLine :: "Utils \<Rightarrow> string \<Rightarrow> (string \<times> MosquittoPasswordFileEntry) option" where
  "parseLine U line =
     (let fields = splitToVector U line CHR '':'' in
      if length fields \<noteq> 2 then None
      else if \<exists>field \<in> set fields. length field = 0 then None
      else
        let fields2 = splitToVector4 U (fields ! 1) CHR ''$'' 3 False in
        if length fields2 \<noteq> 3 then None
        else if fields2 ! 0 \<noteq> ''6'' then None
        else
          (case base64Decode U (fields2 ! 1) of
             None \<Rightarrow> None
           | Some s \<Rightarrow>
               (case base64Decode U (fields2 ! 2) of
                  None \<Rightarrow> None
                | Some c \<Rightarrow> Some (fields ! 0, \<lparr>salt = s, cryptedPassword = c\<rparr>))))"

text \<open>The loop over the lines; \<open>emplace\<close> keeps an entry that is already there.\<close>

fun loadLines ::
  "Utils \<Rightarrow> string list \<Rightarrow> (string \<rightharpoonup> MosquittoPasswordFileEntry) \<Rightarrow>
     (string \<rightharpoonup> MosquittoPasswordFileEntry)" where
  "loadLines U [] tmp = tmp"
| "loadLines U (line # rest) tmp =
     (if line = [] then loadLines U rest tmp
      else
        (case parseLine U line of
           None \<Rightarrow> loadLines U rest tmp
         | Some (username, e) \<Rightarrow>
             loadLines U rest (if tmp username = None then tmp(username \<mapsto> e) else tmp)))"

definition loadMosquittoPasswordFile ::
  "Utils \<Rightarrow> PasswdFile \<Rightarrow> 'p Authentication \<Rightarrow> exn option \<times> 'p Authentication" where
  "loadMosquittoPasswordFile U f a =
     (if mosquittoPasswordFile a = [] then (None, a)
      else if \<not> readable f then (None, a)
      else
        (case st_ctim f of
           None \<Rightarrow> (Some RuntimeError, a)
         | Some ctime \<Rightarrow>
             if tv_sec ctime = tv_sec (mosquittoPasswordFileLastLoad a) then (None, a)
             else
               (None, a\<lparr>mosquittoPasswordEntries := Some (loadLines U (content f) Map.empty),
                        mosquittoPasswordFileLastLoad := ctime\<rparr>)))"

text \<open>
  The check against the table. \<open>sha512\<close> is the digest of OpenSSL, a parameter: the
  source hashes the password followed by the salt.
\<close>

definition unPwdCheckFromMosquittoPasswordFile ::
  "(char list \<Rightarrow> char list) \<Rightarrow> 'p Authentication \<Rightarrow> string \<Rightarrow> string \<Rightarrow> AuthResult" where
  "unPwdCheckFromMosquittoPasswordFile sha512 a username password =
     (if mosquittoPasswordFile a = [] then success
      else
        (case mosquittoPasswordEntries a of
           None \<Rightarrow> login_denied
         | Some entries \<Rightarrow>
             (case entries username of
                None \<Rightarrow> (if allowAnonymous (settings a) then success else login_denied)
              | Some entry \<Rightarrow>
                  if sha512 (password @ salt entry) = cryptedPassword entry
                  then success else login_denied)))"

subsection \<open>The checks\<close>

definition aclCheck ::
  "'p Plugin \<Rightarrow> 'p Authentication \<Rightarrow> string \<Rightarrow> string \<Rightarrow> string \<Rightarrow> AclAccess \<Rightarrow>
     AuthResult \<times> 'p Authentication" where
  "aclCheck P a clientid username topic access =
     (if \<not> useExternalPlugin a then (success, a)
      else if \<not> initialized a then (error, a)
      else
        let (result, pd) = acl_check_v2 P (pluginData a) clientid username topic access
        in (to_AuthResult P result, a\<lparr>pluginData := pd\<rparr>))"

definition unPwdCheck ::
  "(char list \<Rightarrow> char list) \<Rightarrow> 'p Plugin \<Rightarrow> 'p Authentication \<Rightarrow> string \<Rightarrow> string \<Rightarrow>
     AuthResult \<times> 'p Authentication" where
  "unPwdCheck sha512 P a username password =
     (let firstResult = unPwdCheckFromMosquittoPasswordFile sha512 a username password in
      if firstResult \<noteq> success then (firstResult, a)
      else if \<not> useExternalPlugin a then (firstResult, a)
      else if \<not> initialized a then (error, a)
      else
        let (result, pd) = unpwd_check_v2 P (pluginData a) username password
        in (to_AuthResult P result, a\<lparr>pluginData := pd\<rparr>))"

subsection \<open>Calls on the facade, in sequence\<close>

text \<open>
  The methods of \<open>Authentication\<close> that a worker thread calls after start-up.
  \<open>ThreadData::reload\<close> is \<open>securityCleanup\<close> followed by \<open>securityInit\<close>, both
  among the calls. \<open>loadPlugin\<close>, \<open>init\<close> and \<open>cleanup\<close> run at start-up and
  shut-down only (\<open>ThreadData::initAuthPlugin\<close>, the destructor).
\<close>

datatype call =
    Call_aclCheck string string string AclAccess
  | Call_unPwdCheck string string
  | Call_securityInit bool
  | Call_securityCleanup bool
  | Call_setQuitting
  | Call_loadMosquittoPasswordFile PasswdFile

fun call_step ::
  "(char list \<Rightarrow> char list) \<Rightarrow> Utils \<Rightarrow> 'p Plugin \<Rightarrow> call \<Rightarrow> 'p Authentication \<Rightarrow> 'p Authentication" where
  "call_step sha512 U P (Call_aclCheck c u t acc) a = snd (aclCheck P a c u t acc)"
| "call_step sha512 U P (Call_unPwdCheck u p) a = snd (unPwdCheck sha512 P a u p)"
| "call_step sha512 U P (Call_securityInit r) a = snd (securityInit P r a)"
| "call_step sha512 U P (Call_securityCleanup r) a = snd (securityCleanup P r a)"
| "call_step sha512 U P Call_setQuitting a = setQuitting a"
| "call_step sha512 U P (Call_loadMosquittoPasswordFile f) a = snd (loadMosquittoPasswordFile U f a)"

text \<open>A call of \<open>securityInit\<close> that returns without throwing.\<close>

fun completes_securityInit :: "'p Plugin \<Rightarrow> call \<Rightarrow> 'p Authentication \<Rightarrow> bool" where
  "completes_securityInit P (Call_securityInit r) a = (fst (securityInit P r a) = None)"
| "completes_securityInit P _ a = False"

text \<open>
  The object after a sequence of calls, as long as no \<open>securityInit\<close> among them has
  completed: \<open>None\<close> as soon as one does.
\<close>

fun later ::
  "(char list \<Rightarrow> char list) \<Rightarrow> Utils \<Rightarrow> 'p Plugin \<Rightarrow> call list \<Rightarrow> 'p Authentication \<Rightarrow>
     'p Authentication option" where
  "later sha512 U P [] a = Some a"
| "later sha512 U P (c # cs) a =
     (if completes_securityInit P c a then None
      else later sha512 U P cs (call_step sha512 U P c a))"

subsection \<open>Concrete inputs\<close>

text \<open>A plugin whose \<open>security_init\<close> fails, with results cast as Mosquitto numbers them.\<close>

definition ex_cast :: "int \<Rightarrow> AuthResult" where
  "ex_cast i =
     (if i = 0 then success else if i = 11 then login_denied
      else if i = 12 then acl_denied else if i = 13 then error else auth_other i)"

definition ex_plugin_broken :: "nat Plugin" where
  "ex_plugin_broken =
     \<lparr>security_init_v2 = (\<lambda>pd opts reloading. (1, pd)),
      security_cleanup_v2 = (\<lambda>pd opts reloading. (0, pd)),
      acl_check_v2 = (\<lambda>pd c u t acc. (0, Suc pd)),
      unpwd_check_v2 = (\<lambda>pd u p. (0, Suc pd)),
      to_AuthResult = ex_cast\<rparr>"

text \<open>A plugin that denies every login and counts its calls in its data.\<close>

definition ex_plugin_deny :: "nat Plugin" where
  "ex_plugin_deny =
     \<lparr>security_init_v2 = (\<lambda>pd opts reloading. (0, pd)),
      security_cleanup_v2 = (\<lambda>pd opts reloading. (0, pd)),
      acl_check_v2 = (\<lambda>pd c u t acc. (12, Suc pd)),
      unpwd_check_v2 = (\<lambda>pd u p. (11, Suc pd)),
      to_AuthResult = ex_cast\<rparr>"

definition ex_sha :: "char list \<Rightarrow> char list" where
  "ex_sha bytes = rev bytes"

fun ex_split :: "char \<Rightarrow> string \<Rightarrow> string list" where
  "ex_split c [] = [[]]"
| "ex_split c (x # xs) =
     (if x = c then [] # ex_split c xs
      else (case ex_split c xs of [] \<Rightarrow> [[x]] | w # ws \<Rightarrow> (x # w) # ws))"

definition ex_utils :: Utils where
  "ex_utils =
     \<lparr>splitToVector = (\<lambda>s c. ex_split c s),
      splitToVector4 = (\<lambda>s c n keep. take n (filter (\<lambda>w. keep \<or> w \<noteq> []) (ex_split c s))),
      base64Decode = (\<lambda>s. Some s)\<rparr>"

text \<open>No password file, a plugin loaded and initialised.\<close>

definition ex_auth_plugin :: "nat Authentication" where
  "ex_auth_plugin =
     \<lparr>settings = \<lparr>allowAnonymous = False, authOpts = []\<rparr>,
      mosquittoPasswordFile = [],
      mosquittoPasswordEntries = None,
      mosquittoPasswordFileLastLoad = \<lparr>tv_sec = 0, tv_nsec = 0\<rparr>,
      useExternalPlugin = True,
      initialized = True,
      quitting = False,
      pluginData = 0\<rparr>"

text \<open>The table of a password file without lines.\<close>

definition ex_empty_table :: "string \<rightharpoonup> MosquittoPasswordFileEntry" where
  "ex_empty_table = Map.empty"

text \<open>
  A password file configured and loaded at second 100 with no lines, anonymous
  logins allowed, no plugin.
\<close>

definition ex_auth_file :: "nat Authentication" where
  "ex_auth_file =
     \<lparr>settings = \<lparr>allowAnonymous = True, authOpts = []\<rparr>,
      mosquittoPasswordFile = ''/etc/flashmq/passwd'',
      mosquittoPasswordEntries = Some ex_empty_table,
      mosquittoPasswordFileLastLoad = \<lparr>tv_sec = 100, tv_nsec = 0\<rparr>,
      useExternalPlugin = False,
      initialized = False,
      quitting = False,
      pluginData = 0\<rparr>"

text \<open>The same file half a second later, now with a line for user \<open>bob\<close>.\<close>

definition ex_file_changed :: PasswdFile where
  "ex_file_changed =
     \<lparr>readable = True,
      st_ctim = Some \<lparr>tv_sec = 100, tv_nsec = 500000000\<rparr>,
      content = [''bob:$6$c2FsdA==$aGFzaA=='']\<rparr>"

section \<open>The subscription store (subscriptionstore.cpp)\<close>

subsection \<open>Sessions and shared ownership\<close>

text \<open>
  A \<open>Session\<close> object lives on the heap, owned through \<open>shared_ptr\<close>s: one in the
  registry \<open>sessionsById\<close>, and possibly others held by clients. A subscription keeps
  a \<open>weak_ptr\<close>. The model gives every session object an address and carries the heap
  of the objects that are alive: \<open>weak_ptr::lock\<close> is a lookup in the heap, and
  \<open>expired\<close> is a lookup that finds nothing.
\<close>

type_synonym session_ref = nat

record Session =
  client_id :: string

type_synonym heap = "session_ref \<rightharpoonup> Session"

record Subscription =
  session :: session_ref
  qos :: "8 word"

text \<open>
  \<open>Subscription::operator==\<close>: the QoS is not compared; two expired subscriptions
  are equal, an expired and a live one are not, two live ones when their sessions have
  the same client id.
\<close>

definition Subscription_eq :: "heap \<Rightarrow> Subscription \<Rightarrow> Subscription \<Rightarrow> bool" where
  "Subscription_eq h lhs rhs =
     (case (h (session lhs), h (session rhs)) of
        (None, None) \<Rightarrow> True
      | (None, Some r) \<Rightarrow> False
      | (Some l, None) \<Rightarrow> False
      | (Some l, Some r) \<Rightarrow> client_id l = client_id r)"

subsection \<open>The nodes of the subscription tree\<close>

text \<open>
  \<open>children\<close> is an \<open>unordered_map\<close> from subtopic to node, kept as an association
  list with one pair per key (the map's order of iteration is unspecified, and a new key
  is put last here); \<open>childrenPlus\<close> and \<open>childrenPound\<close> are \<open>unique_ptr\<close>s,
  \<open>None\<close> when null.
\<close>

datatype SubscriptionNode =
  SubscriptionNode
    (subtopic: string)
    (subscribers: "Subscription list")
    (children: "(string \<times> SubscriptionNode) list")
    (childrenPlus: "SubscriptionNode option")
    (childrenPound: "SubscriptionNode option")

text \<open>The constructor \<open>SubscriptionNode(subtopic)\<close>.\<close>

definition newSubscriptionNode :: "string \<Rightarrow> SubscriptionNode" where
  "newSubscriptionNode s = SubscriptionNode s [] [] None None"

text \<open>\<open>children[subtopic] = node\<close>: replaces the value of a key in place, or adds the pair.\<close>

fun setChild :: "'k \<Rightarrow> 'v \<Rightarrow> ('k \<times> 'v) list \<Rightarrow> ('k \<times> 'v) list" where
  "setChild k v [] = [(k, v)]"
| "setChild k v ((k', v') # kvs) =
     (if k' = k then (k, v) # kvs else (k', v') # setChild k v kvs)"

text \<open>\<open>SubscriptionNode::getChildren\<close>: the child or the null pointer.\<close>

definition getChildren :: "SubscriptionNode \<Rightarrow> string \<Rightarrow> SubscriptionNode option" where
  "getChildren n s = map_of (children n) s"

text \<open>\<open>std::find\<close> with \<open>operator==\<close>, then assignment in place or \<open>push_back\<close>.\<close>

fun replaceFirst :: "('a \<Rightarrow> bool) \<Rightarrow> 'a \<Rightarrow> 'a list \<Rightarrow> 'a list" where
  "replaceFirst p y [] = [y]"
| "replaceFirst p y (x # xs) = (if p x then y # xs else x # replaceFirst p y xs)"

fun eraseFirst :: "('a \<Rightarrow> bool) \<Rightarrow> 'a list \<Rightarrow> 'a list" where
  "eraseFirst p [] = []"
| "eraseFirst p (x # xs) = (if p x then xs else x # eraseFirst p xs)"

definition addSubscriber :: "heap \<Rightarrow> session_ref \<Rightarrow> 8 word \<Rightarrow> SubscriptionNode \<Rightarrow> SubscriptionNode" where
  "addSubscriber h subscriber q n =
     (let sub = \<lparr>session = subscriber, qos = q\<rparr> in
      SubscriptionNode (subtopic n)
        (replaceFirst (\<lambda>e. Subscription_eq h e sub) sub (subscribers n))
        (children n) (childrenPlus n) (childrenPound n))"

definition removeSubscriber :: "heap \<Rightarrow> session_ref \<Rightarrow> SubscriptionNode \<Rightarrow> SubscriptionNode" where
  "removeSubscriber h subscriber n =
     (let sub = \<lparr>session = subscriber, qos = 0\<rparr> in
      SubscriptionNode (subtopic n)
        (eraseFirst (\<lambda>e. Subscription_eq h e sub) (subscribers n))
        (children n) (childrenPlus n) (childrenPound n))"

text \<open>
  The loop of \<open>SubscriptionStore::getDeepestNode\<close>: it walks the subtopics from a
  node and creates the nodes that are missing. The method returns a pointer into the
  tree; \<open>k\<close> is what the caller then does to the node it points to, and the result is
  the tree after both.
\<close>

fun getDeepestNodeFrom ::
  "string list \<Rightarrow> (SubscriptionNode \<Rightarrow> SubscriptionNode) \<Rightarrow> SubscriptionNode \<Rightarrow> SubscriptionNode" where
  "getDeepestNodeFrom [] k n = k n"
| "getDeepestNodeFrom (s # ss) k n =
     (if s = ''#'' then
        SubscriptionNode (subtopic n) (subscribers n) (children n) (childrenPlus n)
          (Some (getDeepestNodeFrom ss k
            (case childrenPound n of None \<Rightarrow> newSubscriptionNode s | Some c \<Rightarrow> c)))
      else if s = ''+'' then
        SubscriptionNode (subtopic n) (subscribers n) (children n)
          (Some (getDeepestNodeFrom ss k
            (case childrenPlus n of None \<Rightarrow> newSubscriptionNode s | Some c \<Rightarrow> c)))
          (childrenPound n)
      else
        SubscriptionNode (subtopic n) (subscribers n)
          (setChild s
            (getDeepestNodeFrom ss k
              (case map_of (children n) s of None \<Rightarrow> newSubscriptionNode s | Some c \<Rightarrow> c))
            (children n))
          (childrenPlus n) (childrenPound n))"

text \<open>
  The walk of \<open>removeSubscription\<close>, which creates nothing: \<open>None\<close> when a node of
  the path is missing (the early \<open>return\<close>), otherwise the tree after \<open>k\<close> has been
  applied to the last node.
\<close>

fun walkExisting ::
  "string list \<Rightarrow> (SubscriptionNode \<Rightarrow> SubscriptionNode) \<Rightarrow> SubscriptionNode \<Rightarrow>
     SubscriptionNode option" where
  "walkExisting [] k n = Some (k n)"
| "walkExisting (s # ss) k n =
     (if s = ''#'' then
        (case childrenPound n of
           None \<Rightarrow> None
         | Some c \<Rightarrow>
             (case walkExisting ss k c of
                None \<Rightarrow> None
              | Some c' \<Rightarrow>
                  Some (SubscriptionNode (subtopic n) (subscribers n) (children n)
                          (childrenPlus n) (Some c'))))
      else if s = ''+'' then
        (case childrenPlus n of
           None \<Rightarrow> None
         | Some c \<Rightarrow>
             (case walkExisting ss k c of
                None \<Rightarrow> None
              | Some c' \<Rightarrow>
                  Some (SubscriptionNode (subtopic n) (subscribers n) (children n)
                          (Some c') (childrenPound n))))
      else
        (case getChildren n s of
           None \<Rightarrow> None
         | Some c \<Rightarrow>
             (case walkExisting ss k c of
                None \<Rightarrow> None
              | Some c' \<Rightarrow>
                  Some (SubscriptionNode (subtopic n) (subscribers n)
                          (setChild s c' (children n)) (childrenPlus n) (childrenPound n)))))"

text \<open>The node a filter's path leads to, when all of the path exists.\<close>

fun nodeAt :: "string list \<Rightarrow> SubscriptionNode \<Rightarrow> SubscriptionNode option" where
  "nodeAt [] n = Some n"
| "nodeAt (s # ss) n =
     (if s = ''#'' then (case childrenPound n of None \<Rightarrow> None | Some c \<Rightarrow> nodeAt ss c)
      else if s = ''+'' then (case childrenPlus n of None \<Rightarrow> None | Some c \<Rightarrow> nodeAt ss c)
      else (case getChildren n s of None \<Rightarrow> None | Some c \<Rightarrow> nodeAt ss c))"

subsection \<open>Publishing\<close>

text \<open>
  \<open>publishNonRecursively\<close> calls \<open>writePacket\<close> on the session of every subscription
  whose weak pointer still locks. The model returns the subscriptions written to, one
  list element per call of \<open>writePacket\<close>, in the order of the calls.
\<close>

definition publishNonRecursively :: "heap \<Rightarrow> Subscription list \<Rightarrow> Subscription list" where
  "publishNonRecursively h subs = filter (\<lambda>sub. h (session sub) \<noteq> None) subs"

fun publishRecursively :: "heap \<Rightarrow> string list \<Rightarrow> SubscriptionNode \<Rightarrow> Subscription list" where
  "publishRecursively h [] this_node = publishNonRecursively h (subscribers this_node)"
| "publishRecursively h (cur_subtop # next_subtopic) this_node =
     (if children this_node = [] \<and> childrenPlus this_node = None \<and> childrenPound this_node = None
      then []
      else
        (case childrenPound this_node of
           None \<Rightarrow> []
         | Some p \<Rightarrow> publishNonRecursively h (subscribers p))
        @ (case map_of (children this_node) cur_subtop of
             None \<Rightarrow> []
           | Some sub_node \<Rightarrow> publishRecursively h next_subtopic sub_node)
        @ (case childrenPlus this_node of
             None \<Rightarrow> []
           | Some c \<Rightarrow> publishRecursively h next_subtopic c))"

subsection \<open>The sweep\<close>

text \<open>
  \<open>SubscriptionNode::cleanSubscriptions\<close> returns the number of subscriptions left
  in the subtree, and the model returns the cleaned node with it. The three functions
  are the method, its loop over \<open>children\<close>, and the body of its loop over the two
  wildcard children. The C++ \<open>int\<close> is an unbounded integer here: the model is that of
  the code for trees with fewer than \<open>2^31\<close> subscriptions.
\<close>

fun cleanSubscriptions :: "heap \<Rightarrow> SubscriptionNode \<Rightarrow> int \<times> SubscriptionNode"
  and cleanChildren ::
    "heap \<Rightarrow> (string \<times> SubscriptionNode) list \<Rightarrow> int \<times> (string \<times> SubscriptionNode) list"
  and cleanWildcard :: "heap \<Rightarrow> SubscriptionNode option \<Rightarrow> int \<times> SubscriptionNode option" where
  "cleanSubscriptions h (SubscriptionNode st subs ch cplus cpound) =
     (let (inChildren, ch') = cleanChildren h ch;
          (inPlus, cplus') = cleanWildcard h cplus;
          (inPound, cpound') = cleanWildcard h cpound;
          subs' = filter (\<lambda>sub. h (session sub) \<noteq> None) subs
      in (int (length subs') + (inChildren + inPlus + inPound),
          SubscriptionNode st subs' ch' cplus' cpound'))"
| "cleanChildren h [] = (0, [])"
| "cleanChildren h ((key, c) # rest) =
     (let (n, c') = cleanSubscriptions h c;
          (m, rest') = cleanChildren h rest
      in (n + m, if n > 0 then (key, c') # rest' else rest'))"
| "cleanWildcard h None = (0, None)"
| "cleanWildcard h (Some c) =
     (let (n, c') = cleanSubscriptions h c
      in (n, if n = 0 then None else Some c'))"

subsection \<open>Retained messages\<close>

record RetainedMessage =
  rm_topic :: string
  rm_payload :: string
  rm_qos :: "8 word"

text \<open>
  Modelled from the spec: the equality of \<open>RetainedMessage\<close> that the container
  \<open>retainedMessages\<close> uses is declared in retainedmessage.h, which is not among the
  sources. The spec keeps at most one retained payload per exact topic, so two retained
  messages are the same element when their topics are equal.
\<close>

definition RetainedMessage_eq :: "RetainedMessage \<Rightarrow> RetainedMessage \<Rightarrow> bool" where
  "RetainedMessage_eq a b = (rm_topic a = rm_topic b)"

text \<open>
  \<open>retainedMessages\<close> is a set of messages, kept as the list of its elements;
  \<open>children\<close> is a map as in the subscription tree.
\<close>

datatype RetainedMessageNode =
  RetainedMessageNode
    (retainedMessages: "RetainedMessage list")
    (retained_children: "(string \<times> RetainedMessageNode) list")

definition newRetainedMessageNode :: RetainedMessageNode where
  "newRetainedMessageNode = RetainedMessageNode [] []"

text \<open>
  \<open>RetainedMessageNode::addPayload\<close>. \<open>erase(rm)\<close> removes the element equal to
  \<open>rm\<close>; \<open>insert\<close> then adds \<open>rm\<close>, no equal element being left. The sizes are
  \<open>size_t\<close> and \<open>int64_t\<close>: their difference is taken modulo \<open>2^64\<close>.
\<close>

definition addPayload ::
  "string \<Rightarrow> string \<Rightarrow> 8 word \<Rightarrow> 64 word \<Rightarrow> RetainedMessageNode \<Rightarrow> RetainedMessageNode \<times> 64 word" where
  "addPayload t p q totalCount n =
     (let msgs = retainedMessages n;
          countBefore = (of_nat (length msgs) :: 64 word);
          rm = \<lparr>rm_topic = t, rm_payload = p, rm_qos = q\<rparr>;
          retained_found = (\<exists>m \<in> set msgs. RetainedMessage_eq m rm);
          erased = filter (\<lambda>m. \<not> RetainedMessage_eq m rm) msgs
      in if \<not> retained_found \<and> p = [] then (n, totalCount)
         else if retained_found \<and> p = [] then
           (RetainedMessageNode erased (retained_children n),
            totalCount + (of_nat (length erased) - countBefore))
         else
           (let msgs1 = (if retained_found then erased else msgs);
                msgs2 = msgs1 @ [rm]
            in (RetainedMessageNode msgs2 (retained_children n),
                totalCount + (of_nat (length msgs2) - countBefore))))"

text \<open>
  The loop of \<open>setRetainedMessage\<close> from a starting node, and the call of
  \<open>addPayload\<close> on the node it ends at: \<open>children[subtopic]\<close> creates the entry
  when it is missing.
\<close>

fun setRetainedMessageFrom ::
  "string list \<Rightarrow> string \<Rightarrow> string \<Rightarrow> 8 word \<Rightarrow> 64 word \<Rightarrow> RetainedMessageNode \<Rightarrow>
     RetainedMessageNode \<times> 64 word" where
  "setRetainedMessageFrom [] t p q totalCount n = addPayload t p q totalCount n"
| "setRetainedMessageFrom (s # ss) t p q totalCount n =
     (let selectedChildren =
            (case map_of (retained_children n) s of
               None \<Rightarrow> newRetainedMessageNode
             | Some c \<Rightarrow> c);
          (c', totalCount') = setRetainedMessageFrom ss t p q totalCount selectedChildren
      in (RetainedMessageNode (retainedMessages n) (setChild s c' (retained_children n)),
          totalCount'))"

text \<open>\<open>SubscriptionStore::getRetainedMessages\<close>: every stored message of a tree.\<close>

fun getRetainedMessages :: "RetainedMessageNode \<Rightarrow> RetainedMessage list" where
  "getRetainedMessages (RetainedMessageNode msgs ch) =
     msgs @ concat (map (\<lambda>pair. getRetainedMessages (snd pair)) ch)"

text \<open>The messages stored at the node of a path; none when the node is not there.\<close>

fun retainedAt :: "string list \<Rightarrow> RetainedMessageNode \<Rightarrow> RetainedMessage list" where
  "retainedAt [] n = retainedMessages n"
| "retainedAt (s # ss) n =
     (case map_of (retained_children n) s of None \<Rightarrow> [] | Some c \<Rightarrow> retainedAt ss c)"

subsection \<open>The store\<close>

text \<open>
  The fields of \<open>SubscriptionStore\<close>. \<open>sessionsById\<close> is an \<open>unordered_map\<close> from
  client id to a \<open>shared_ptr\<close> of the session: an association list in iteration order,
  one pair per client id, whose first pair is what \<open>begin()\<close> points to.
\<close>

record SubscriptionStore =
  root :: SubscriptionNode
  rootDollar :: SubscriptionNode
  sessionsById :: "(string \<times> session_ref) list"
  retainedMessagesRoot :: RetainedMessageNode
  retainedMessagesRootDollar :: RetainedMessageNode
  retainedMessageCount :: "64 word"

text \<open>The constructor.\<close>

definition newSubscriptionStore :: SubscriptionStore where
  "newSubscriptionStore =
     \<lparr>root = newSubscriptionNode ''root'',
      rootDollar = newSubscriptionNode ''rootDollar'',
      sessionsById = [],
      retainedMessagesRoot = newRetainedMessageNode,
      retainedMessagesRootDollar = newRetainedMessageNode,
      retainedMessageCount = 0\<rparr>"

text \<open>
  \<open>getDeepestNode\<close>: the walk starts at \<open>rootDollar\<close> when the topic starts with
  \<open>$\<close>, and at \<open>root\<close> otherwise.
\<close>

definition getDeepestNode ::
  "string \<Rightarrow> string list \<Rightarrow> (SubscriptionNode \<Rightarrow> SubscriptionNode) \<Rightarrow> SubscriptionStore \<Rightarrow>
     SubscriptionStore" where
  "getDeepestNode t subtopics k st =
     (if length t > 0 \<and> t ! 0 = CHR ''$''
      then st\<lparr>rootDollar := getDeepestNodeFrom subtopics k (rootDollar st)\<rparr>
      else st\<lparr>root := getDeepestNodeFrom subtopics k (root st)\<rparr>)"

text \<open>
  \<open>addSubscription\<close>, for the client with the given id: \<open>addSubscriber\<close> on the
  deepest node when the client has a session in the registry. The replay of retained
  messages that follows \<open>addSubscriber\<close> writes to the session only and leaves the
  store as it is. The method returns nothing and throws nothing.
\<close>

definition addSubscription ::
  "heap \<Rightarrow> string \<Rightarrow> string \<Rightarrow> string list \<Rightarrow> 8 word \<Rightarrow> SubscriptionStore \<Rightarrow> SubscriptionStore" where
  "addSubscription h clientid t subtopics q st =
     getDeepestNode t subtopics
       (case map_of (sessionsById st) clientid of
          None \<Rightarrow> (\<lambda>deepestNode. deepestNode)
        | Some ses \<Rightarrow> addSubscriber h ses q)
       st"

text \<open>
  \<open>removeSubscription\<close>. \<open>split\<close> of utils.cpp is not among the sources and is a
  parameter.
\<close>

definition removeSubscription ::
  "(string \<Rightarrow> char \<Rightarrow> string list) \<Rightarrow> heap \<Rightarrow> string \<Rightarrow> string \<Rightarrow> SubscriptionStore \<Rightarrow>
     SubscriptionStore" where
  "removeSubscription split h clientid t st =
     (let subtopics = split t CHR ''/'';
          k = (case map_of (sessionsById st) clientid of
                 None \<Rightarrow> (\<lambda>deepestNode. deepestNode)
               | Some ses \<Rightarrow> removeSubscriber h ses)
      in if length t > 0 \<and> t ! 0 = CHR ''$''
         then (case walkExisting subtopics k (rootDollar st) of
                 None \<Rightarrow> st
               | Some r \<Rightarrow> st\<lparr>rootDollar := r\<rparr>)
         else (case walkExisting subtopics k (root st) of
                 None \<Rightarrow> st
               | Some r \<Rightarrow> st\<lparr>root := r\<rparr>))"

definition queuePacketAtSubscribers ::
  "heap \<Rightarrow> string list \<Rightarrow> bool \<Rightarrow> SubscriptionStore \<Rightarrow> Subscription list" where
  "queuePacketAtSubscribers h subtopics dollar st =
     publishRecursively h subtopics (if dollar then rootDollar st else root st)"

text \<open>
  The test that sends a topic to the tree of the \<open>$\<close> topics: the subtopics are not
  empty, the first one is not empty and starts with \<open>$\<close>.
\<close>

definition dollarSubtopics :: "string list \<Rightarrow> bool" where
  "dollarSubtopics subtopics =
     (subtopics \<noteq> [] \<and> subtopics ! 0 \<noteq> [] \<and> (subtopics ! 0) ! 0 = CHR ''$'')"

definition setRetainedMessage ::
  "string \<Rightarrow> string list \<Rightarrow> string \<Rightarrow> 8 word \<Rightarrow> SubscriptionStore \<Rightarrow> SubscriptionStore" where
  "setRetainedMessage t subtopics p q st =
     (if dollarSubtopics subtopics
      then
        (let (n, c) = setRetainedMessageFrom subtopics t p q (retainedMessageCount st)
                        (retainedMessagesRootDollar st)
         in st\<lparr>retainedMessagesRootDollar := n, retainedMessageCount := c\<rparr>)
      else
        (let (n, c) = setRetainedMessageFrom subtopics t p q (retainedMessageCount st)
                        (retainedMessagesRoot st)
         in st\<lparr>retainedMessagesRoot := n, retainedMessageCount := c\<rparr>))"

text \<open>The number of payloads stored in the two trees of retained messages.\<close>

definition storedPayloads :: "SubscriptionStore \<Rightarrow> nat" where
  "storedPayloads st =
     length (getRetainedMessages (retainedMessagesRoot st))
     + length (getRetainedMessages (retainedMessagesRootDollar st))"

text \<open>Whether the tree has a node at the end of a path.\<close>

fun hasRetainedNode :: "string list \<Rightarrow> RetainedMessageNode \<Rightarrow> bool" where
  "hasRetainedNode [] n = True"
| "hasRetainedNode (s # ss) n =
     (case map_of (retained_children n) s of None \<Rightarrow> False | Some c \<Rightarrow> hasRetainedNode ss c)"

text \<open>
  The tree with the missing nodes of a path added, each new node without messages and
  with the next node of the path as its only child; a path that exists leaves the tree
  as it is.
\<close>

fun ensurePath :: "string list \<Rightarrow> RetainedMessageNode \<Rightarrow> RetainedMessageNode" where
  "ensurePath [] n = n"
| "ensurePath (s # ss) n =
     RetainedMessageNode (retainedMessages n)
       (setChild s
          (ensurePath ss
             (case map_of (retained_children n) s of
                None \<Rightarrow> newRetainedMessageNode
              | Some c \<Rightarrow> c))
          (retained_children n))"

text \<open>
  The tree with the message of topic \<open>t\<close> taken out of the node at the end of a path;
  the tree itself when the path does not exist. No node is added or removed.
\<close>

fun eraseTopicAt :: "string list \<Rightarrow> string \<Rightarrow> RetainedMessageNode \<Rightarrow> RetainedMessageNode" where
  "eraseTopicAt [] t n =
     RetainedMessageNode (filter (\<lambda>m. rm_topic m \<noteq> t) (retainedMessages n)) (retained_children n)"
| "eraseTopicAt (s # ss) t n =
     (case map_of (retained_children n) s of
        None \<Rightarrow> n
      | Some c \<Rightarrow>
          RetainedMessageNode (retainedMessages n)
            (setChild s (eraseTopicAt ss t c) (retained_children n)))"

text \<open>
  The root that \<open>setRetainedMessage\<close> starts from for the given subtopics, the other
  root, and the store with the former replaced.
\<close>

definition retainedRootFor :: "string list \<Rightarrow> SubscriptionStore \<Rightarrow> RetainedMessageNode" where
  "retainedRootFor subtopics st =
     (if dollarSubtopics subtopics then retainedMessagesRootDollar st else retainedMessagesRoot st)"

definition retainedRootOther :: "string list \<Rightarrow> SubscriptionStore \<Rightarrow> RetainedMessageNode" where
  "retainedRootOther subtopics st =
     (if dollarSubtopics subtopics then retainedMessagesRoot st else retainedMessagesRootDollar st)"

definition withRetainedRootFor ::
  "string list \<Rightarrow> RetainedMessageNode \<Rightarrow> SubscriptionStore \<Rightarrow> SubscriptionStore" where
  "withRetainedRootFor subtopics n st =
     (if dollarSubtopics subtopics then st\<lparr>retainedMessagesRootDollar := n\<rparr>
      else st\<lparr>retainedMessagesRoot := n\<rparr>)"

text \<open>
  Erasing a pair of the registry gives up its \<open>shared_ptr\<close>: the session object is
  destroyed unless a client still holds one (\<open>held\<close> are the sessions that clients
  hold).
\<close>

definition dropShared :: "session_ref set \<Rightarrow> session_ref \<Rightarrow> heap \<Rightarrow> heap" where
  "dropShared held r h = (if r \<in> held then h else h(r := None))"

text \<open>\<open>removeSession\<close>: the pair erased is the one at \<open>begin()\<close>.\<close>

definition removeSession ::
  "session_ref set \<Rightarrow> string \<Rightarrow> SubscriptionStore \<times> heap \<Rightarrow> SubscriptionStore \<times> heap" where
  "removeSession held clientid sh =
     (case sessionsById (fst sh) of
        [] \<Rightarrow> sh
      | (cid, r) # rest \<Rightarrow> ((fst sh)\<lparr>sessionsById := rest\<rparr>, dropShared held r (snd sh)))"

text \<open>
  The loop of \<open>removeExpiredSessionsClients\<close> over the registry. \<open>hasExpired\<close> of
  session.cpp is a parameter, already applied to \<open>expireSessionsAfterSeconds\<close>. The
  registry owns its sessions, so the lookup in the heap finds the object.
\<close>

fun eraseExpired ::
  "(Session \<Rightarrow> bool) \<Rightarrow> session_ref set \<Rightarrow> (string \<times> session_ref) list \<Rightarrow> heap \<Rightarrow>
     (string \<times> session_ref) list \<times> heap" where
  "eraseExpired hasExpired held [] h = ([], h)"
| "eraseExpired hasExpired held ((cid, r) # rest) h =
     (if (case h r of None \<Rightarrow> False | Some ses \<Rightarrow> hasExpired ses)
      then eraseExpired hasExpired held rest (dropShared held r h)
      else (let (rest', h') = eraseExpired hasExpired held rest h in ((cid, r) # rest', h')))"

definition removeExpiredSessionsClients ::
  "(Session \<Rightarrow> bool) \<Rightarrow> session_ref set \<Rightarrow> SubscriptionStore \<times> heap \<Rightarrow> SubscriptionStore \<times> heap" where
  "removeExpiredSessionsClients hasExpired held sh =
     (let (reg, h') = eraseExpired hasExpired held (sessionsById (fst sh)) (snd sh);
          (n, r) = cleanSubscriptions h' (root (fst sh))
      in ((fst sh)\<lparr>sessionsById := reg, root := r\<rparr>, h'))"

subsection \<open>Concrete stores\<close>

text \<open>Two live sessions, of clients \<open>alice\<close> and \<open>bob\<close>, both in the registry.\<close>

definition ex_heap :: heap where
  "ex_heap = [1 \<mapsto> \<lparr>client_id = ''alice''\<rparr>, 2 \<mapsto> \<lparr>client_id = ''bob''\<rparr>]"

definition ex_store :: SubscriptionStore where
  "ex_store = newSubscriptionStore\<lparr>sessionsById := [(''alice'', 1), (''bob'', 2)]\<rparr>"

text \<open>A splitter of topics at a separator, for the parameter \<open>split\<close>.\<close>

definition ex_topic_split :: "string \<Rightarrow> char \<Rightarrow> string list" where
  "ex_topic_split t c = ex_split c t"

text \<open>The store after \<open>alice\<close> has subscribed to \<open>a/b\<close> with QoS 1.\<close>

definition ex_store_ab :: SubscriptionStore where
  "ex_store_ab = addSubscription ex_heap ''alice'' ''a/b'' [''a'', ''b''] 1 ex_store"

text \<open>The store with the payload \<open>on\<close> retained at \<open>home/light\<close>.\<close>

definition ex_store_retained :: SubscriptionStore where
  "ex_store_retained = setRetainedMessage ''home/light'' [''home'', ''light''] ''on'' 1 ex_store"

subsection \<open>What a tree holds\<close>

text \<open>
  All the subscriptions of a subtree; whether one of them has a live session; and the
  state the sweep is meant to reach: below the node, every node has a subscription with
  a live session in its subtree.
\<close>

fun allSubscriptions :: "SubscriptionNode \<Rightarrow> Subscription list" where
  "allSubscriptions (SubscriptionNode st subs ch cplus cpound) =
     subs
     @ concat (map (\<lambda>pair. allSubscriptions (snd pair)) ch)
     @ (case cplus of None \<Rightarrow> [] | Some c \<Rightarrow> allSubscriptions c)
     @ (case cpound of None \<Rightarrow> [] | Some c \<Rightarrow> allSubscriptions c)"

definition hasLiveSubscriber :: "heap \<Rightarrow> SubscriptionNode \<Rightarrow> bool" where
  "hasLiveSubscriber h n = (\<exists>sub \<in> set (allSubscriptions n). h (session sub) \<noteq> None)"

fun pruned :: "heap \<Rightarrow> SubscriptionNode \<Rightarrow> bool" where
  "pruned h (SubscriptionNode st subs ch cplus cpound) =
     ((\<forall>pair \<in> set ch. hasLiveSubscriber h (snd pair) \<and> pruned h (snd pair))
      \<and> (case cplus of None \<Rightarrow> True | Some c \<Rightarrow> hasLiveSubscriber h c \<and> pruned h c)
      \<and> (case cpound of None \<Rightarrow> True | Some c \<Rightarrow> hasLiveSubscriber h c \<and> pruned h c))"

definition allLive :: "heap \<Rightarrow> Subscription list \<Rightarrow> bool" where
  "allLive h subs = (\<forall>sub \<in> set subs. h (session sub) \<noteq> None)"

text \<open>
  Matching of a filter (first argument) against a publish topic, level by level. The
  first definition follows the MQTT rules as the specification words them: \<open>+\<close>
  matches exactly one level, a final \<open>#\<close> matches zero or more remaining levels. The
  second is the matching that \<open>publishRecursively\<close> carries out, read off its
  recursion: a \<open>#\<close> child is looked at only while a level of the topic remains.
\<close>

fun mqttMatches :: "string list \<Rightarrow> string list \<Rightarrow> bool" where
  "mqttMatches [] [] = True"
| "mqttMatches [] (s # ss) = False"
| "mqttMatches (f # fs) [] = (f = ''#'' \<and> fs = [])"
| "mqttMatches (f # fs) (s # ss) =
     (if f = ''#'' then fs = [] else (f = ''+'' \<or> f = s) \<and> mqttMatches fs ss)"

fun codeMatches :: "string list \<Rightarrow> string list \<Rightarrow> bool" where
  "codeMatches [] [] = True"
| "codeMatches [] (s # ss) = False"
| "codeMatches (f # fs) [] = False"
| "codeMatches (f # fs) (s # ss) =
     (if f = ''#'' then fs = [] else (f = ''+'' \<or> f = s) \<and> codeMatches fs ss)"

text \<open>
  The subscriptions of a tree, each with the filter it is stored under; those of them
  that match a topic and satisfy \<open>P\<close>; and those that match and have a live session.
\<close>

definition prefixEntries ::
  "string \<Rightarrow> (string list \<times> Subscription) list \<Rightarrow> (string list \<times> Subscription) list" where
  "prefixEntries k es = map (\<lambda>e. (k # fst e, snd e)) es"

fun treeEntries :: "SubscriptionNode \<Rightarrow> (string list \<times> Subscription) list" where
  "treeEntries (SubscriptionNode st subs ch cplus cpound) =
     map (Pair []) subs
     @ concat (map (\<lambda>pair. prefixEntries (fst pair) (treeEntries (snd pair))) ch)
     @ (case cplus of None \<Rightarrow> [] | Some c \<Rightarrow> prefixEntries ''+'' (treeEntries c))
     @ (case cpound of None \<Rightarrow> [] | Some c \<Rightarrow> prefixEntries ''#'' (treeEntries c))"

definition matching ::
  "(Subscription \<Rightarrow> bool) \<Rightarrow> string list \<Rightarrow> (string list \<times> Subscription) list \<Rightarrow> Subscription list" where
  "matching P t es = map snd (filter (\<lambda>e. codeMatches (fst e) t \<and> P (snd e)) es)"

definition matchingLive :: "heap \<Rightarrow> string list \<Rightarrow> SubscriptionNode \<Rightarrow> Subscription list" where
  "matchingLive h t n = matching (\<lambda>sub. h (session sub) \<noteq> None) t (treeEntries n)"

text \<open>
  The shape \<open>getDeepestNode\<close> keeps: one pair per key in \<open>children\<close>, and no key
  \<open>+\<close> or \<open>#\<close> there (those go to the two wildcard pointers).
\<close>

fun wfNode :: "SubscriptionNode \<Rightarrow> bool" where
  "wfNode (SubscriptionNode st subs ch cplus cpound) =
     (distinct (map fst ch)
      \<and> (\<forall>pair \<in> set ch. fst pair \<noteq> ''+'' \<and> fst pair \<noteq> ''#'' \<and> wfNode (snd pair))
      \<and> (case cplus of None \<Rightarrow> True | Some c \<Rightarrow> wfNode c)
      \<and> (case cpound of None \<Rightarrow> True | Some c \<Rightarrow> wfNode c))"

definition wfStore :: "SubscriptionStore \<Rightarrow> bool" where
  "wfStore st = (wfNode (root st) \<and> wfNode (rootDollar st))"

text \<open>The store after \<open>alice\<close> has subscribed to \<open>a/#\<close> with QoS 1.\<close>

definition ex_store_pound :: SubscriptionStore where
  "ex_store_pound = addSubscription ex_heap ''alice'' ''a/#'' [''a'', ''#''] 1 ex_store"

text \<open>No session has expired.\<close>

definition ex_none_expired :: "Session \<Rightarrow> bool" where
  "ex_none_expired ses = False"

text \<open>The store after \<open>alice\<close> has subscribed to \<open>$SYS/x\<close> and unsubscribed again.\<close>

definition ex_store_sys :: SubscriptionStore where
  "ex_store_sys =
     removeSubscription ex_topic_split ex_heap ''alice'' ''$SYS/x''
       (addSubscription ex_heap ''alice'' ''$SYS/x'' [''$SYS'', ''x''] 0 ex_store)"

section \<open>Properties of the authentication facade\<close>

subsection \<open>Fail closed after a failed reload\<close>

lemma securityCleanup_useExternalPlugin:
  "useExternalPlugin (snd (securityCleanup P r a)) = useExternalPlugin a"
  by (simp add: securityCleanup_def Let_def split: prod.splits)

lemma reload_fails_not_initialized:
  assumes "securityCleanup P True a = (None, a1)"
    and "fst (securityInit P True a1) \<noteq> None"
  shows "useExternalPlugin (reload P a) \<and> \<not> initialized (reload P a)"
proof -
  from assms(2) have ext1: "useExternalPlugin a1" and nq: "\<not> quitting a1"
    by (auto simp: securityInit_def split: if_splits)
  from ext1 assms(1) have ext: "useExternalPlugin a"
    using securityCleanup_useExternalPlugin [of P True a] by simp
  with assms(1) have ni: "\<not> initialized a1"
    by (auto simp: securityCleanup_def Let_def split: prod.splits if_splits)
  from assms(2) ext1 nq ni have "useExternalPlugin (snd (securityInit P True a1))
      \<and> \<not> initialized (snd (securityInit P True a1))"
    by (auto simp: securityInit_def Let_def split: prod.splits if_splits)
  with assms(1) show ?thesis by (simp add: reload_def)
qed

lemma call_step_keeps_uninitialized:
  assumes "useExternalPlugin a" and "\<not> initialized a" and "\<not> completes_securityInit P c a"
  shows "useExternalPlugin (call_step sha512 U P c a) \<and> \<not> initialized (call_step sha512 U P c a)"
  using assms
  by (cases c)
    (auto simp: aclCheck_def unPwdCheck_def securityInit_def securityCleanup_def setQuitting_def
      loadMosquittoPasswordFile_def Let_def split: prod.splits if_splits option.splits)

lemma later_keeps_uninitialized:
  "useExternalPlugin a \<Longrightarrow> \<not> initialized a \<Longrightarrow> later sha512 U P cs a = Some a' \<Longrightarrow>
   useExternalPlugin a' \<and> \<not> initialized a'"
proof (induction cs arbitrary: a)
  case Nil
  then show ?case by simp
next
  case (Cons c cs)
  from Cons.prems(3) have nc: "\<not> completes_securityInit P c a"
    and rest: "later sha512 U P cs (call_step sha512 U P c a) = Some a'"
    by (auto split: if_splits)
  from call_step_keeps_uninitialized [OF Cons.prems(1,2) nc]
  have "useExternalPlugin (call_step sha512 U P c a)" "\<not> initialized (call_step sha512 U P c a)"
    by simp_all
  from Cons.IH [OF this rest] show ?case .
qed

text \<open>
  C1. A reload whose \<open>securityCleanup(true)\<close> returns and whose \<open>securityInit(true)\<close>
  throws because the plugin's \<open>security_init\<close> returned non-zero leaves the facade
  closed: after any further calls, as long as no \<open>securityInit\<close> among them has
  completed, \<open>aclCheck\<close> returns \<open>error\<close> without calling the plugin, and so does
  \<open>unPwdCheck\<close> whenever the password file lets the login through to the plugin.
\<close>

theorem reload_failure_fails_closed:
  assumes "securityCleanup P True a = (None, a1)"
    and "fst (securityInit P True a1) = Some AuthPluginException"
    and "later sha512 U P cs (reload P a) = Some a'"
  shows "aclCheck P a' clientid username t acc = (error, a')
     \<and> (unPwdCheckFromMosquittoPasswordFile sha512 a' username password = success \<longrightarrow>
          unPwdCheck sha512 P a' username password = (error, a'))"
proof -
  from assms(2) have "fst (securityInit P True a1) \<noteq> None" by simp
  from reload_fails_not_initialized [OF assms(1) this]
  have "useExternalPlugin (reload P a)" "\<not> initialized (reload P a)" by simp_all
  from later_keeps_uninitialized [OF this assms(3)]
  have "useExternalPlugin a'" "\<not> initialized a'" by simp_all
  then show ?thesis by (simp add: aclCheck_def unPwdCheck_def)
qed

theorem reload_failure_fails_closed_witness:
  "securityCleanup ex_plugin_broken True ex_auth_plugin = (None, ex_auth_plugin\<lparr>initialized := False\<rparr>)
   \<and> fst (securityInit ex_plugin_broken True (ex_auth_plugin\<lparr>initialized := False\<rparr>))
       = Some AuthPluginException
   \<and> later ex_sha ex_utils ex_plugin_broken [Call_aclCheck ''c1'' ''bob'' ''a/b'' 2,
        Call_securityInit True, Call_unPwdCheck ''bob'' ''pw''] (reload ex_plugin_broken ex_auth_plugin)
       = Some (ex_auth_plugin\<lparr>initialized := False\<rparr>)
   \<and> unPwdCheckFromMosquittoPasswordFile ex_sha (ex_auth_plugin\<lparr>initialized := False\<rparr>) ''bob'' ''pw''
       = success
   \<and> aclCheck ex_plugin_broken (ex_auth_plugin\<lparr>initialized := False\<rparr>) ''c1'' ''bob'' ''a/b'' 2
       = (error, ex_auth_plugin\<lparr>initialized := False\<rparr>)
   \<and> unPwdCheck ex_sha ex_plugin_broken (ex_auth_plugin\<lparr>initialized := False\<rparr>) ''bob'' ''pw''
       = (error, ex_auth_plugin\<lparr>initialized := False\<rparr>)"
proof -
  have c: "securityCleanup ex_plugin_broken True ex_auth_plugin
      = (None, ex_auth_plugin\<lparr>initialized := False\<rparr>)"
    by (simp add: securityCleanup_def ex_plugin_broken_def ex_auth_plugin_def)
  have i: "securityInit ex_plugin_broken True (ex_auth_plugin\<lparr>initialized := False\<rparr>)
      = (Some AuthPluginException, ex_auth_plugin\<lparr>initialized := False\<rparr>)"
    by (simp add: securityInit_def ex_plugin_broken_def ex_auth_plugin_def)
  have r: "reload ex_plugin_broken ex_auth_plugin = ex_auth_plugin\<lparr>initialized := False\<rparr>"
    by (simp add: reload_def c i)
  have f: "unPwdCheckFromMosquittoPasswordFile ex_sha (ex_auth_plugin\<lparr>initialized := False\<rparr>) ''bob'' ''pw''
       = success"
    by (simp add: unPwdCheckFromMosquittoPasswordFile_def ex_auth_plugin_def)
  have ac: "aclCheck ex_plugin_broken (ex_auth_plugin\<lparr>initialized := False\<rparr>) ''c1'' ''bob'' ''a/b'' 2
      = (error, ex_auth_plugin\<lparr>initialized := False\<rparr>)"
    by (simp add: aclCheck_def ex_auth_plugin_def)
  have uc: "unPwdCheck ex_sha ex_plugin_broken (ex_auth_plugin\<lparr>initialized := False\<rparr>) ''bob'' ''pw''
      = (error, ex_auth_plugin\<lparr>initialized := False\<rparr>)"
    by (simp add: unPwdCheck_def f) (simp add: ex_auth_plugin_def)
  have l: "later ex_sha ex_utils ex_plugin_broken [Call_aclCheck ''c1'' ''bob'' ''a/b'' 2,
        Call_securityInit True, Call_unPwdCheck ''bob'' ''pw''] (reload ex_plugin_broken ex_auth_plugin)
       = Some (ex_auth_plugin\<lparr>initialized := False\<rparr>)"
    by (simp add: r ac i uc)
  have i': "fst (securityInit ex_plugin_broken True (ex_auth_plugin\<lparr>initialized := False\<rparr>))
       = Some AuthPluginException"
    by (simp add: i)
  from reload_failure_fails_closed [OF c i' l, of "''c1''" "''bob''" "''a/b''" 2 "''pw''"] c i' l f
  show ?thesis by simp
qed

subsection \<open>The password file check\<close>

text \<open>
  C5, as the claim states it, fails: with a password file configured, an empty table
  loaded and \<open>allowAnonymous\<close> set, an unknown user is let in.
\<close>

theorem unPwdCheckFromMosquittoPasswordFile_counterexample:
  "mosquittoPasswordFile ex_auth_file \<noteq> []
   \<and> mosquittoPasswordEntries ex_auth_file = Some ex_empty_table
   \<and> ex_empty_table ''bob'' = None
   \<and> unPwdCheckFromMosquittoPasswordFile ex_sha ex_auth_file ''bob'' ''secret'' = success
   \<and> unPwdCheckFromMosquittoPasswordFile ex_sha ex_auth_file ''bob'' ''secret'' \<noteq> login_denied"
  by (simp add: unPwdCheckFromMosquittoPasswordFile_def ex_auth_file_def ex_empty_table_def)

text \<open>
  C5, amended. With no password file the check returns \<open>success\<close>. With a password
  file configured: \<open>login_denied\<close> as long as no table has been loaded; for a user
  with no entry in the loaded table (so for every user when the table is empty),
  \<open>login_denied\<close> unless \<open>allowAnonymous\<close> is set, and \<open>success\<close> when it is.
\<close>

theorem unPwdCheckFromMosquittoPasswordFile_cases:
  "(mosquittoPasswordFile a = [] \<longrightarrow>
      unPwdCheckFromMosquittoPasswordFile sha512 a username password = success)
   \<and> (mosquittoPasswordFile a \<noteq> [] \<and> mosquittoPasswordEntries a = None \<longrightarrow>
      unPwdCheckFromMosquittoPasswordFile sha512 a username password = login_denied)
   \<and> (mosquittoPasswordFile a \<noteq> [] \<and> mosquittoPasswordEntries a = Some entries
        \<and> entries username = None \<longrightarrow>
      unPwdCheckFromMosquittoPasswordFile sha512 a username password =
        (if allowAnonymous (settings a) then success else login_denied))"
  by (simp add: unPwdCheckFromMosquittoPasswordFile_def)

theorem unPwdCheckFromMosquittoPasswordFile_cases_witness:
  "unPwdCheckFromMosquittoPasswordFile ex_sha ex_auth_plugin ''bob'' ''secret'' = success
   \<and> unPwdCheckFromMosquittoPasswordFile ex_sha
        (ex_auth_file\<lparr>mosquittoPasswordEntries := None\<rparr>) ''bob'' ''secret'' = login_denied
   \<and> unPwdCheckFromMosquittoPasswordFile ex_sha
        (ex_auth_file\<lparr>settings := \<lparr>allowAnonymous = False, authOpts = []\<rparr>\<rparr>) ''bob'' ''secret''
       = login_denied
   \<and> unPwdCheckFromMosquittoPasswordFile ex_sha ex_auth_file ''bob'' ''secret'' = success"
  using unPwdCheckFromMosquittoPasswordFile_cases [of ex_auth_plugin ex_sha "''bob''" "''secret''" Map.empty]
    unPwdCheckFromMosquittoPasswordFile_cases
      [of "ex_auth_file\<lparr>mosquittoPasswordEntries := None\<rparr>" ex_sha "''bob''" "''secret''" Map.empty]
    unPwdCheckFromMosquittoPasswordFile_cases
      [of "ex_auth_file\<lparr>settings := \<lparr>allowAnonymous = False, authOpts = []\<rparr>\<rparr>" ex_sha "''bob''" "''secret''" Map.empty]
    unPwdCheckFromMosquittoPasswordFile_cases [of ex_auth_file ex_sha "''bob''" "''secret''" Map.empty]
  by (simp add: ex_auth_file_def ex_auth_plugin_def ex_empty_table_def)

subsection \<open>Login: password file first, then the plugin\<close>

text \<open>
  C6. \<open>unPwdCheck\<close> evaluates the password file first. A result other than
  \<open>success\<close> is returned as it is, whatever the plugin (which is not called: the
  object is unchanged); with no plugin configured the result of the password file is
  the result; the plugin is called only after \<open>success\<close>, and then its result, cast,
  is returned. A configured plugin that is not initialised is not called either: the
  result is \<open>error\<close>.
\<close>

theorem unPwdCheck_composition:
  "(unPwdCheckFromMosquittoPasswordFile sha512 a username password \<noteq> success \<longrightarrow>
      (\<forall>P. unPwdCheck sha512 P a username password =
             (unPwdCheckFromMosquittoPasswordFile sha512 a username password, a)))
   \<and> (unPwdCheckFromMosquittoPasswordFile sha512 a username password = success
        \<and> \<not> useExternalPlugin a \<longrightarrow>
      (\<forall>P. unPwdCheck sha512 P a username password = (success, a)))
   \<and> (unPwdCheckFromMosquittoPasswordFile sha512 a username password = success
        \<and> useExternalPlugin a \<and> initialized a \<longrightarrow>
      (\<forall>P. unPwdCheck sha512 P a username password =
             (to_AuthResult P (fst (unpwd_check_v2 P (pluginData a) username password)),
              a\<lparr>pluginData := snd (unpwd_check_v2 P (pluginData a) username password)\<rparr>)))
   \<and> (unPwdCheckFromMosquittoPasswordFile sha512 a username password = success
        \<and> useExternalPlugin a \<and> \<not> initialized a \<longrightarrow>
      (\<forall>P. unPwdCheck sha512 P a username password = (error, a)))"
  by (simp add: unPwdCheck_def Let_def split: prod.splits)

theorem unPwdCheck_composition_witness:
  "unPwdCheck ex_sha ex_plugin_deny (ex_auth_file\<lparr>mosquittoPasswordEntries := None\<rparr>) ''bob'' ''secret''
     = (login_denied, ex_auth_file\<lparr>mosquittoPasswordEntries := None\<rparr>)
   \<and> unPwdCheck ex_sha ex_plugin_deny ex_auth_file ''bob'' ''secret'' = (success, ex_auth_file)
   \<and> unPwdCheck ex_sha ex_plugin_deny ex_auth_plugin ''bob'' ''secret''
     = (login_denied, ex_auth_plugin\<lparr>pluginData := 1\<rparr>)
   \<and> unPwdCheck ex_sha ex_plugin_deny (ex_auth_plugin\<lparr>initialized := False\<rparr>) ''bob'' ''secret''
     = (error, ex_auth_plugin\<lparr>initialized := False\<rparr>)"
  using unPwdCheck_composition [of ex_sha "ex_auth_file\<lparr>mosquittoPasswordEntries := None\<rparr>" "''bob''" "''secret''"]
    unPwdCheck_composition [of ex_sha ex_auth_file "''bob''" "''secret''"]
    unPwdCheck_composition [of ex_sha ex_auth_plugin "''bob''" "''secret''"]
    unPwdCheck_composition [of ex_sha "ex_auth_plugin\<lparr>initialized := False\<rparr>" "''bob''" "''secret''"]
  by (simp add: unPwdCheckFromMosquittoPasswordFile_def ex_auth_file_def ex_auth_plugin_def
      ex_plugin_deny_def ex_cast_def ex_empty_table_def)

subsection \<open>Reloading the password file\<close>

lemma loadMosquittoPasswordFile_reloads_iff_seconds_differ:
  "mosquittoPasswordFile a \<noteq> [] \<Longrightarrow> readable f \<Longrightarrow> st_ctim f = Some ctime \<Longrightarrow>
   loadMosquittoPasswordFile U f a =
     (if tv_sec ctime = tv_sec (mosquittoPasswordFileLastLoad a) then (None, a)
      else (None, a\<lparr>mosquittoPasswordEntries := Some (loadLines U (content f) Map.empty),
                     mosquittoPasswordFileLastLoad := ctime\<rparr>))"
  by (simp add: loadMosquittoPasswordFile_def)

text \<open>
  C7, at the failing input. The table was loaded at second 100 and 0 nanoseconds; the
  file changes half a second later (a line for \<open>bob\<close> is added, the ctime is second
  100 and 500000000 nanoseconds). The ctime differs from the one recorded, and loading
  the file would give \<open>bob\<close> an entry, but \<open>loadMosquittoPasswordFile\<close> compares
  \<open>tv_sec\<close> only and returns with the object as it was: the table stays empty.
\<close>

theorem loadMosquittoPasswordFile_subsecond_change_not_loaded:
  "st_ctim ex_file_changed \<noteq> Some (mosquittoPasswordFileLastLoad ex_auth_file)
   \<and> loadLines ex_utils (content ex_file_changed) ex_empty_table ''bob''
       = Some \<lparr>salt = ''c2FsdA=='', cryptedPassword = ''aGFzaA==''\<rparr>
   \<and> loadMosquittoPasswordFile ex_utils ex_file_changed ex_auth_file = (None, ex_auth_file)
   \<and> mosquittoPasswordEntries
        (snd (loadMosquittoPasswordFile ex_utils ex_file_changed ex_auth_file)) = Some ex_empty_table"
proof -
  have changed: "st_ctim ex_file_changed \<noteq> Some (mosquittoPasswordFileLastLoad ex_auth_file)"
    by (simp add: ex_file_changed_def ex_auth_file_def)
  have new_line: "loadLines ex_utils (content ex_file_changed) ex_empty_table ''bob''
       = Some \<lparr>salt = ''c2FsdA=='', cryptedPassword = ''aGFzaA==''\<rparr>"
    unfolding ex_empty_table_def by code_simp
  have kept: "loadMosquittoPasswordFile ex_utils ex_file_changed ex_auth_file = (None, ex_auth_file)"
    by (simp add: loadMosquittoPasswordFile_def ex_file_changed_def ex_auth_file_def)
  have "mosquittoPasswordEntries ex_auth_file = Some ex_empty_table"
    by (simp add: ex_auth_file_def)
  with changed new_line kept show ?thesis by simp
qed

section \<open>Properties of the subscription store\<close>

subsection \<open>The session registry\<close>

lemma removeSession_erases_begin:
  "sessionsById st = (cid, r) # rest \<Longrightarrow>
   sessionsById (fst (removeSession held clientid (st, h))) = rest"
  by (simp add: removeSession_def)

text \<open>
  C2, at the failing input. The registry holds the sessions of \<open>alice\<close> and
  \<open>bob\<close>, and \<open>begin()\<close> points to the pair of \<open>alice\<close>. Removing the session of
  \<open>bob\<close> erases the pair of \<open>alice\<close> and leaves that of \<open>bob\<close> in the registry.
\<close>

theorem removeSession_erases_other_client:
  "map_of (sessionsById ex_store) ''alice'' = Some 1
   \<and> map_of (sessionsById ex_store) ''bob'' = Some 2
   \<and> sessionsById (fst (removeSession {} ''bob'' (ex_store, ex_heap))) = [(''bob'', 2)]
   \<and> map_of (sessionsById (fst (removeSession {} ''bob'' (ex_store, ex_heap)))) ''bob'' = Some 2
   \<and> map_of (sessionsById (fst (removeSession {} ''bob'' (ex_store, ex_heap)))) ''alice'' = None"
  by (simp add: removeSession_def ex_store_def newSubscriptionStore_def)

subsection \<open>Removing a subscription\<close>

lemma walkExisting_None_iff: "walkExisting ss k n = None \<longleftrightarrow> nodeAt ss n = None"
proof (induction ss arbitrary: n)
  case Nil
  show ?case by simp
next
  case (Cons s ss)
  have step: "(case walkExisting ss k c of None \<Rightarrow> None | Some c' \<Rightarrow> Some (f c')) = None
      \<longleftrightarrow> nodeAt ss c = None" for c and f :: "SubscriptionNode \<Rightarrow> SubscriptionNode"
    using Cons.IH [of c] by (cases "walkExisting ss k c") auto
  show ?case
    by (simp add: step split: option.split)
qed

text \<open>
  C10. When the path of the filter does not fully exist under the root the filter
  belongs to, \<open>removeSubscription\<close> returns the store as it was: no node is created
  and no subscriber removed.
\<close>

theorem removeSubscription_missing_path_unchanged:
  assumes "nodeAt (split t CHR ''/'')
             (if length t > 0 \<and> t ! 0 = CHR ''$'' then rootDollar st else root st) = None"
  shows "removeSubscription split h clientid t st = st"
proof -
  from assms have "walkExisting (split t CHR ''/'') k
             (if length t > 0 \<and> t ! 0 = CHR ''$'' then rootDollar st else root st) = None" for k
    by (simp only: walkExisting_None_iff)
  then show ?thesis
    by (auto simp: removeSubscription_def Let_def split: option.splits if_splits)
qed

lemma ex_store_ab_root:
  "root ex_store_ab =
     SubscriptionNode ''root'' []
       [(''a'', SubscriptionNode ''a'' []
          [(''b'', SubscriptionNode ''b'' [\<lparr>session = 1, qos = 1\<rparr>] [] None None)] None None)]
       None None"
  by (simp add: ex_store_ab_def addSubscription_def getDeepestNode_def ex_store_def newSubscriptionStore_def
      newSubscriptionNode_def addSubscriber_def)

theorem removeSubscription_missing_path_unchanged_witness:
  "nodeAt (ex_topic_split ''a/c'' CHR ''/'')
     (if length ''a/c'' > 0 \<and> ''a/c'' ! 0 = CHR ''$'' then rootDollar ex_store_ab else root ex_store_ab) = None
   \<and> removeSubscription ex_topic_split ex_heap ''alice'' ''a/c'' ex_store_ab = ex_store_ab"
proof -
  have sp: "ex_topic_split ''a/c'' CHR ''/'' = [''a'', ''c'']"
    by code_simp
  have "nodeAt (ex_topic_split ''a/c'' CHR ''/'')
     (if length ''a/c'' > 0 \<and> ''a/c'' ! 0 = CHR ''$'' then rootDollar ex_store_ab else root ex_store_ab) = None"
    by (simp add: sp ex_store_ab_root getChildren_def)
  with removeSubscription_missing_path_unchanged
    [of ex_topic_split "''a/c''" ex_store_ab ex_heap "''alice''"]
  show ?thesis by simp
qed

subsection \<open>Adding a subscription\<close>

lemma map_of_setChild: "map_of (setChild k v kvs) k' = (if k' = k then Some v else map_of kvs k')"
  by (induction kvs) auto

lemma replaceFirst_mem: "y \<in> set (replaceFirst p y xs)"
  by (induction xs) auto

lemma addSubscriber_mem:
  "\<lparr>session = ses, qos = q\<rparr> \<in> set (subscribers (addSubscriber h ses q n))"
  by (simp add: addSubscriber_def Let_def replaceFirst_mem)

lemma nodeAt_getDeepestNode:
  "\<exists>m. nodeAt ss (getDeepestNodeFrom ss k n) = Some (k m)"
proof (induction ss arbitrary: n)
  case Nil
  show ?case by auto
next
  case (Cons s ss)
  show ?case
    using Cons.IH by (simp add: getChildren_def map_of_setChild)
qed

text \<open>
  C9, as the claim states it, fails: \<open>addSubscription\<close> checks nothing. For the
  filter \<open>a/#/b+\<close>, with \<open>#\<close> before the last level and a \<open>+\<close> inside a level, it
  creates the three nodes of the path and records the subscription; the caller gets no
  error (the method returns \<open>void\<close> and has no \<open>throw\<close>).
\<close>

theorem addSubscription_invalid_filter_counterexample:
  "root (addSubscription ex_heap ''alice'' ''a/#/b+'' [''a'', ''#'', ''b+''] 0 ex_store)
     = SubscriptionNode ''root'' []
         [(''a'', SubscriptionNode ''a'' [] [] None
            (Some (SubscriptionNode ''#'' []
               [(''b+'', SubscriptionNode ''b+'' [\<lparr>session = 1, qos = 0\<rparr>] [] None None)]
               None None)))]
         None None
   \<and> root ex_store = SubscriptionNode ''root'' [] [] None None
   \<and> addSubscription ex_heap ''alice'' ''a/#/b+'' [''a'', ''#'', ''b+''] 0 ex_store \<noteq> ex_store"
proof -
  have a: "root (addSubscription ex_heap ''alice'' ''a/#/b+'' [''a'', ''#'', ''b+''] 0 ex_store)
     = SubscriptionNode ''root'' []
         [(''a'', SubscriptionNode ''a'' [] [] None
            (Some (SubscriptionNode ''#'' []
               [(''b+'', SubscriptionNode ''b+'' [\<lparr>session = 1, qos = 0\<rparr>] [] None None)]
               None None)))]
         None None"
    by (simp add: addSubscription_def getDeepestNode_def ex_store_def newSubscriptionStore_def
      newSubscriptionNode_def addSubscriber_def)
  have b: "root ex_store = SubscriptionNode ''root'' [] [] None None"
    by (simp add: ex_store_def newSubscriptionStore_def newSubscriptionNode_def)
  from a b have "root (addSubscription ex_heap ''alice'' ''a/#/b+'' [''a'', ''#'', ''b+''] 0 ex_store)
      \<noteq> root ex_store"
    by simp
  then have "addSubscription ex_heap ''alice'' ''a/#/b+'' [''a'', ''#'', ''b+''] 0 ex_store \<noteq> ex_store"
    by auto
  with a b show ?thesis by simp
qed

text \<open>
  C9, amended. \<open>addSubscription\<close> never fails and validates nothing: for every
  filter, valid or not, the path of its subtopics exists under the filter's root
  afterwards, and when the client has a session in the registry the node at the end of
  the path holds a subscription of that session with the QoS asked for. Rejecting an
  invalid filter is left to the caller.
\<close>

theorem addSubscription_never_rejects:
  "\<exists>n. nodeAt subtopics
          (if length t > 0 \<and> t ! 0 = CHR ''$''
           then rootDollar (addSubscription h clientid t subtopics q st)
           else root (addSubscription h clientid t subtopics q st)) = Some n
        \<and> (\<forall>ses. map_of (sessionsById st) clientid = Some ses \<longrightarrow>
               \<lparr>session = ses, qos = q\<rparr> \<in> set (subscribers n))"
proof (cases "map_of (sessionsById st) clientid")
  case None
  then show ?thesis
    using nodeAt_getDeepestNode [of subtopics "\<lambda>deepestNode. deepestNode"]
    by (simp add: addSubscription_def getDeepestNode_def)
next
  case (Some ses)
  have "\<exists>n. nodeAt subtopics (getDeepestNodeFrom subtopics (addSubscriber h ses q) r) = Some n
          \<and> \<lparr>session = ses, qos = q\<rparr> \<in> set (subscribers n)" for r
    using nodeAt_getDeepestNode [of subtopics "addSubscriber h ses q" r] addSubscriber_mem
    by auto
  with Some show ?thesis
    by (simp add: addSubscription_def getDeepestNode_def)
qed

theorem addSubscription_never_rejects_witness:
  "map_of (sessionsById ex_store) ''alice'' = Some 1
   \<and> (\<exists>n. nodeAt [''a'', ''#'', ''b+'']
          (root (addSubscription ex_heap ''alice'' ''a/#/b+'' [''a'', ''#'', ''b+''] 0 ex_store)) = Some n
        \<and> \<lparr>session = 1, qos = 0\<rparr> \<in> set (subscribers n))"
proof -
  have r: "map_of (sessionsById ex_store) ''alice'' = Some 1"
    by (simp add: ex_store_def newSubscriptionStore_def)
  with addSubscription_never_rejects [of "[''a'', ''#'', ''b+'']" "''a/#/b+''" ex_heap "''alice''" 0 ex_store]
  show ?thesis by simp
qed

subsection \<open>Retained messages with an empty payload\<close>

lemma retainedAt_new: "retainedAt ps newRetainedMessageNode = []"
  by (cases ps) (simp_all add: newRetainedMessageNode_def)

lemma filter_not_eq_id:
  "\<not> (\<exists>m \<in> set msgs. RetainedMessage_eq m rm) \<Longrightarrow>
   filter (\<lambda>m. \<not> RetainedMessage_eq m rm) msgs = msgs"
  by (induction msgs) auto

lemma addPayload_empty:
  "addPayload t [] q c n =
     (RetainedMessageNode (filter (\<lambda>m. rm_topic m \<noteq> t) (retainedMessages n)) (retained_children n),
      c + (of_nat (length (filter (\<lambda>m. rm_topic m \<noteq> t) (retainedMessages n)))
           - of_nat (length (retainedMessages n))))"
proof (cases "\<exists>m \<in> set (retainedMessages n). rm_topic m = t")
  case True
  then show ?thesis
    by (simp add: addPayload_def Let_def RetainedMessage_eq_def)
next
  case False
  then have "filter (\<lambda>m. rm_topic m \<noteq> t) (retainedMessages n) = retainedMessages n"
    by (induction "retainedMessages n") (auto simp: filter_id_conv)
  with False show ?thesis
    by (simp add: addPayload_def Let_def RetainedMessage_eq_def)
qed

lemma retainedAt_setRetainedMessageFrom_empty:
  "retainedAt path (fst (setRetainedMessageFrom ss t [] q c n)) =
     (if path = ss then filter (\<lambda>m. rm_topic m \<noteq> t) (retainedAt path n) else retainedAt path n)"
proof (induction ss arbitrary: path n)
  case Nil
  show ?case by (cases path) (simp_all add: addPayload_empty)
next
  case (Cons s ss)
  show ?case
  proof (cases path)
    case Nil
    then show ?thesis by (simp add: Let_def split: prod.splits)
  next
    case (Cons s' ps)
    obtain c' cnt where r: "setRetainedMessageFrom ss t [] q c
        (case map_of (retained_children n) s of None \<Rightarrow> newRetainedMessageNode | Some x \<Rightarrow> x) = (c', cnt)"
      by (cases "setRetainedMessageFrom ss t [] q c
        (case map_of (retained_children n) s of None \<Rightarrow> newRetainedMessageNode | Some x \<Rightarrow> x)") simp
    have ih: "retainedAt ps c' =
        (if ps = ss then filter (\<lambda>m. rm_topic m \<noteq> t)
            (retainedAt ps (case map_of (retained_children n) s of None \<Rightarrow> newRetainedMessageNode | Some x \<Rightarrow> x))
         else retainedAt ps (case map_of (retained_children n) s of None \<Rightarrow> newRetainedMessageNode | Some x \<Rightarrow> x))"
      using Cons.IH [of ps "case map_of (retained_children n) s of None \<Rightarrow> newRetainedMessageNode | Some x \<Rightarrow> x"] r
      by simp
    show ?thesis
      using Cons r ih
      by (auto simp: map_of_setChild retainedAt_new split: option.splits)
  qed
qed


lemma getRetainedMessages_new: "getRetainedMessages newRetainedMessageNode = []"
  by (simp add: newRetainedMessageNode_def)

lemma length_concat_setChild:
  "(of_nat (length (concat (map g (setChild s v kvs)))) :: 64 word) =
     of_nat (length (concat (map g kvs))) + of_nat (length (g (s, v)))
       - (case map_of kvs s of None \<Rightarrow> 0 | Some old \<Rightarrow> of_nat (length (g (s, old))))"
  by (induction kvs) auto

lemma word_count_step:
  fixes a :: "64 word"
  assumes "a - x = c - s" and "n' = n + x - s"
  shows "a - n' = c - n"
proof -
  from assms(1) have "a = c - s + x" by (simp add: algebra_simps)
  with assms(2) show ?thesis by simp
qed

lemma addPayload_count:
  assumes "addPayload t p q c n = (n', c')"
  shows "c' - of_nat (length (getRetainedMessages n')) = c - of_nat (length (getRetainedMessages n))"
proof -
  obtain msgs ch where n: "n = RetainedMessageNode msgs ch" by (cases n)
  from assms show ?thesis
    unfolding n addPayload_def Let_def
    by (auto split: if_splits)
qed

lemma setRetainedMessageFrom_count:
  "setRetainedMessageFrom ss t p q c n = (n', c') \<Longrightarrow>
   c' - of_nat (length (getRetainedMessages n')) = c - of_nat (length (getRetainedMessages n))"
proof (induction ss arbitrary: n n' c')
  case Nil
  then show ?case using addPayload_count by simp
next
  case (Cons s ss)
  obtain msgs ch where n: "n = RetainedMessageNode msgs ch" by (cases n)
  define sel where "sel = (case map_of ch s of None \<Rightarrow> newRetainedMessageNode | Some x \<Rightarrow> x)"
  obtain c2 cnt where r: "setRetainedMessageFrom ss t p q c sel = (c2, cnt)"
    by (cases "setRetainedMessageFrom ss t p q c sel") simp
  from Cons.IH [OF r]
  have ih: "cnt - of_nat (length (getRetainedMessages c2)) = c - of_nat (length (getRetainedMessages sel))" .
  from Cons.prems r have n': "n' = RetainedMessageNode msgs (setChild s c2 ch)" and c': "c' = cnt"
    by (simp_all add: n sel_def)
  have sel_len: "(case map_of ch s of None \<Rightarrow> 0
        | Some old \<Rightarrow> of_nat (length (getRetainedMessages (snd (s, old))))) =
      (of_nat (length (getRetainedMessages sel)) :: 64 word)"
    by (simp add: sel_def getRetainedMessages_new split: option.splits)
  have "(of_nat (length (getRetainedMessages n')) :: 64 word) =
      of_nat (length (getRetainedMessages n)) + of_nat (length (getRetainedMessages c2))
        - of_nat (length (getRetainedMessages sel))"
    using length_concat_setChild [of "\<lambda>pair. getRetainedMessages (snd pair)" s c2 ch] sel_len
    by (simp add: n n')
  with ih c' show ?case
    using word_count_step by blast
qed


lemma setRetainedMessage_count:
  assumes "retainedMessageCount st = of_nat (storedPayloads st)"
  shows "retainedMessageCount (setRetainedMessage t subtopics p q st) =
           of_nat (storedPayloads (setRetainedMessage t subtopics p q st))"
proof (cases "dollarSubtopics subtopics")
  case True
  obtain n' c' where r: "setRetainedMessageFrom subtopics t p q (retainedMessageCount st)
      (retainedMessagesRootDollar st) = (n', c')"
    by (cases "setRetainedMessageFrom subtopics t p q (retainedMessageCount st)
      (retainedMessagesRootDollar st)") simp
  from setRetainedMessageFrom_count [OF r] assms
  have "c' = of_nat (length (getRetainedMessages (retainedMessagesRoot st)))
      + of_nat (length (getRetainedMessages n'))"
    by (simp add: storedPayloads_def algebra_simps)
  with True r show ?thesis
    by (simp add: setRetainedMessage_def storedPayloads_def)
next
  case False
  obtain n' c' where r: "setRetainedMessageFrom subtopics t p q (retainedMessageCount st)
      (retainedMessagesRoot st) = (n', c')"
    by (cases "setRetainedMessageFrom subtopics t p q (retainedMessageCount st)
      (retainedMessagesRoot st)") simp
  from setRetainedMessageFrom_count [OF r] assms
  have "c' = of_nat (length (getRetainedMessages n'))
      + of_nat (length (getRetainedMessages (retainedMessagesRootDollar st)))"
    by (simp add: storedPayloads_def algebra_simps)
  with False r show ?thesis
    by (simp add: setRetainedMessage_def storedPayloads_def)
qed

text \<open>
  C4, as the claim states it, fails: with nothing retained at \<open>a/b\<close>, setting the
  empty payload there creates the nodes \<open>a\<close> and \<open>b\<close>. The walk to the node
  reads \<open>children[subtopic]\<close> for every payload, and only then \<open>addPayload\<close>
  looks at the payload.
\<close>

theorem setRetainedMessage_empty_payload_counterexample:
  "retainedAt [''a'', ''b''] (retainedMessagesRoot ex_store) = []
   \<and> retainedMessagesRoot ex_store = RetainedMessageNode [] []
   \<and> retainedMessagesRoot (setRetainedMessage ''a/b'' [''a'', ''b''] [] 0 ex_store)
       = RetainedMessageNode [] [(''a'', RetainedMessageNode [] [(''b'', RetainedMessageNode [] [])])]
   \<and> setRetainedMessage ''a/b'' [''a'', ''b''] [] 0 ex_store \<noteq> ex_store"
proof -
  have before: "retainedMessagesRoot ex_store = RetainedMessageNode [] []"
    by (simp add: ex_store_def newSubscriptionStore_def newRetainedMessageNode_def)
  have after: "retainedMessagesRoot (setRetainedMessage ''a/b'' [''a'', ''b''] [] 0 ex_store)
       = RetainedMessageNode [] [(''a'', RetainedMessageNode [] [(''b'', RetainedMessageNode [] [])])]"
    by (simp add: setRetainedMessage_def dollarSubtopics_def ex_store_def newSubscriptionStore_def
        newRetainedMessageNode_def addPayload_def)
  from before after
  have "retainedMessagesRoot (setRetainedMessage ''a/b'' [''a'', ''b''] [] 0 ex_store)
      \<noteq> retainedMessagesRoot ex_store"
    by simp
  then have "setRetainedMessage ''a/b'' [''a'', ''b''] [] 0 ex_store \<noteq> ex_store"
    by auto
  with before after show ?thesis by simp
qed

lemma retained_messages_after_empty_payload:
  "(\<forall>path. retainedAt path (retainedMessagesRoot (setRetainedMessage t subtopics [] q st)) =
      (if \<not> dollarSubtopics subtopics \<and> path = subtopics
       then filter (\<lambda>m. rm_topic m \<noteq> t) (retainedAt path (retainedMessagesRoot st))
       else retainedAt path (retainedMessagesRoot st)))
   \<and> (\<forall>path. retainedAt path (retainedMessagesRootDollar (setRetainedMessage t subtopics [] q st)) =
      (if dollarSubtopics subtopics \<and> path = subtopics
       then filter (\<lambda>m. rm_topic m \<noteq> t) (retainedAt path (retainedMessagesRootDollar st))
       else retainedAt path (retainedMessagesRootDollar st)))
   \<and> (retainedMessageCount st = of_nat (storedPayloads st) \<longrightarrow>
        retainedMessageCount (setRetainedMessage t subtopics [] q st) =
          of_nat (storedPayloads (setRetainedMessage t subtopics [] q st)))"
proof -
  obtain n1 c1 where r1: "setRetainedMessageFrom subtopics t [] q (retainedMessageCount st)
      (retainedMessagesRoot st) = (n1, c1)"
    by (cases "setRetainedMessageFrom subtopics t [] q (retainedMessageCount st)
      (retainedMessagesRoot st)") simp
  obtain n2 c2 where r2: "setRetainedMessageFrom subtopics t [] q (retainedMessageCount st)
      (retainedMessagesRootDollar st) = (n2, c2)"
    by (cases "setRetainedMessageFrom subtopics t [] q (retainedMessageCount st)
      (retainedMessagesRootDollar st)") simp
  have at1: "retainedAt path n1 =
      (if path = subtopics
       then filter (\<lambda>m. rm_topic m \<noteq> t) (retainedAt path (retainedMessagesRoot st))
       else retainedAt path (retainedMessagesRoot st))" for path
    using retainedAt_setRetainedMessageFrom_empty
      [of path subtopics t q "retainedMessageCount st" "retainedMessagesRoot st"] r1
    by simp
  have at2: "retainedAt path n2 =
      (if path = subtopics
       then filter (\<lambda>m. rm_topic m \<noteq> t) (retainedAt path (retainedMessagesRootDollar st))
       else retainedAt path (retainedMessagesRootDollar st))" for path
    using retainedAt_setRetainedMessageFrom_empty
      [of path subtopics t q "retainedMessageCount st" "retainedMessagesRootDollar st"] r2
    by simp
  have main: "\<forall>path. retainedAt path (retainedMessagesRoot (setRetainedMessage t subtopics [] q st)) =
      (if \<not> dollarSubtopics subtopics \<and> path = subtopics
       then filter (\<lambda>m. rm_topic m \<noteq> t) (retainedAt path (retainedMessagesRoot st))
       else retainedAt path (retainedMessagesRoot st))"
    by (simp add: setRetainedMessage_def r1 r2 at1)
  have dollar: "\<forall>path. retainedAt path (retainedMessagesRootDollar (setRetainedMessage t subtopics [] q st)) =
      (if dollarSubtopics subtopics \<and> path = subtopics
       then filter (\<lambda>m. rm_topic m \<noteq> t) (retainedAt path (retainedMessagesRootDollar st))
       else retainedAt path (retainedMessagesRootDollar st))"
    by (simp add: setRetainedMessage_def r1 r2 at2)
  from main dollar setRetainedMessage_count [of st t subtopics "[]" q] show ?thesis
    by blast
qed

lemma setChild_same: "map_of kvs k = Some v \<Longrightarrow> setChild k v kvs = kvs"
  by (induction kvs) (auto split: if_splits)

lemma ensurePath_existing: "hasRetainedNode ss n \<Longrightarrow> ensurePath ss n = n"
proof (induction ss arbitrary: n)
  case Nil
  show ?case by simp
next
  case (Cons s ss)
  from Cons.prems obtain c where c: "map_of (retained_children n) s = Some c"
    and h: "hasRetainedNode ss c"
    by (auto split: option.splits)
  from Cons.IH [OF h] c show ?case
    by (simp add: setChild_same)
qed

lemma setRetainedMessageFrom_no_entry:
  "\<forall>m \<in> set (retainedAt ss n). rm_topic m \<noteq> t \<Longrightarrow>
   setRetainedMessageFrom ss t [] q c n = (ensurePath ss n, c)"
proof (induction ss arbitrary: n)
  case Nil
  then have "filter (\<lambda>m. rm_topic m \<noteq> t) (retainedMessages n) = retainedMessages n"
    by (simp add: filter_id_conv)
  then show ?case by (simp add: addPayload_empty)
next
  case (Cons s ss)
  define sel where "sel = (case map_of (retained_children n) s of
      None \<Rightarrow> newRetainedMessageNode | Some x \<Rightarrow> x)"
  from Cons.prems have "\<forall>m \<in> set (retainedAt ss sel). rm_topic m \<noteq> t"
    by (auto simp: sel_def retainedAt_new split: option.splits)
  from Cons.IH [OF this] show ?case
    by (simp add: sel_def Let_def)
qed

lemma setRetainedMessageFrom_entry:
  "\<exists>m \<in> set (retainedAt ss n). rm_topic m = t \<Longrightarrow>
   fst (setRetainedMessageFrom ss t [] q c n) = eraseTopicAt ss t n"
proof (induction ss arbitrary: n)
  case Nil
  show ?case by (simp add: addPayload_empty)
next
  case (Cons s ss)
  show ?case
  proof (cases "map_of (retained_children n) s")
    case None
    with Cons.prems show ?thesis by simp
  next
    case (Some x)
    with Cons.prems have e: "\<exists>m \<in> set (retainedAt ss x). rm_topic m = t" by simp
    from Cons.IH [OF e] Some show ?thesis
      by (simp add: split_beta Let_def)
  qed
qed

lemma hasRetainedNode_new: "hasRetainedNode ps newRetainedMessageNode \<longleftrightarrow> ps = []"
  by (cases ps) (simp_all add: newRetainedMessageNode_def)

lemma hasRetainedNode_children:
  "retained_children n' = retained_children n \<Longrightarrow> hasRetainedNode path n' = hasRetainedNode path n"
  by (cases path) simp_all

lemma addPayload_children: "retained_children (fst (addPayload t p q c n)) = retained_children n"
  by (simp add: addPayload_def Let_def)

lemma hasRetainedNode_setRetainedMessageFrom:
  "hasRetainedNode path (fst (setRetainedMessageFrom ss t p q c n))
     \<longleftrightarrow> hasRetainedNode path n \<or> prefix path ss"
proof (induction ss arbitrary: path n)
  case Nil
  have "hasRetainedNode path (fst (addPayload t p q c n)) = hasRetainedNode path n"
    by (rule hasRetainedNode_children) (rule addPayload_children)
  then show ?case by (cases path) simp_all
next
  case (Cons s ss)
  define sel where "sel = (case map_of (retained_children n) s of
      None \<Rightarrow> newRetainedMessageNode | Some x \<Rightarrow> x)"
  show ?case
  proof (cases path)
    case Nil
    then show ?thesis by simp
  next
    case (Cons s' ps)
    have ih: "hasRetainedNode ps (fst (setRetainedMessageFrom ss t p q c sel))
        \<longleftrightarrow> hasRetainedNode ps sel \<or> prefix ps ss"
      by (rule Cons.IH)
    show ?thesis
    proof (cases "s' = s")
      case True
      with ih show ?thesis
        by (auto simp: Cons sel_def split_beta Let_def map_of_setChild hasRetainedNode_new
            split: option.splits)
    next
      case False
      then show ?thesis
        by (simp add: Cons split_beta Let_def map_of_setChild)
    qed
  qed
qed


lemma setRetainedMessage_frame:
  "root (setRetainedMessage t subtopics p q st) = root st
   \<and> rootDollar (setRetainedMessage t subtopics p q st) = rootDollar st
   \<and> sessionsById (setRetainedMessage t subtopics p q st) = sessionsById st
   \<and> retainedRootOther subtopics (setRetainedMessage t subtopics p q st)
       = retainedRootOther subtopics st"
  by (simp add: setRetainedMessage_def retainedRootOther_def split_beta)

lemma setRetainedMessage_selected:
  "setRetainedMessage t subtopics p q st =
     (withRetainedRootFor subtopics
        (fst (setRetainedMessageFrom subtopics t p q (retainedMessageCount st)
               (retainedRootFor subtopics st))) st)
     \<lparr>retainedMessageCount :=
        snd (setRetainedMessageFrom subtopics t p q (retainedMessageCount st)
               (retainedRootFor subtopics st))\<rparr>"
  by (simp add: setRetainedMessage_def retainedRootFor_def withRetainedRootFor_def split_beta)

lemma retainedRootFor_with:
  "retainedRootFor subtopics ((withRetainedRootFor subtopics n st)\<lparr>retainedMessageCount := c\<rparr>) = n"
  by (simp add: retainedRootFor_def withRetainedRootFor_def)

lemma withRetainedRootFor_same:
  "(withRetainedRootFor subtopics (retainedRootFor subtopics st) st)
     \<lparr>retainedMessageCount := retainedMessageCount st\<rparr> = st"
  by (simp add: retainedRootFor_def withRetainedRootFor_def)

lemma withRetainedRootFor_count:
  "(withRetainedRootFor subtopics n st)\<lparr>retainedMessageCount := retainedMessageCount st\<rparr>
     = withRetainedRootFor subtopics n st"
  by (simp add: withRetainedRootFor_def)

lemma setRetainedMessage_structure:
  fixes t :: string and subtopics :: "string list" and q :: "8 word" and st :: SubscriptionStore
  defines "st' \<equiv> setRetainedMessage t subtopics [] q st"
    and "R \<equiv> retainedRootFor subtopics st"
  shows
    "(\<forall>path. hasRetainedNode path (retainedRootFor subtopics st')
         \<longleftrightarrow> hasRetainedNode path R \<or> prefix path subtopics)
     \<and> ((\<forall>m \<in> set (retainedAt subtopics R). rm_topic m \<noteq> t) \<longrightarrow>
          st' = withRetainedRootFor subtopics (ensurePath subtopics R) st)
     \<and> ((\<forall>m \<in> set (retainedAt subtopics R). rm_topic m \<noteq> t) \<and> hasRetainedNode subtopics R \<longrightarrow>
          st' = st)
     \<and> ((\<exists>m \<in> set (retainedAt subtopics R). rm_topic m = t) \<longrightarrow>
          retainedRootFor subtopics st' = eraseTopicAt subtopics t R)"
proof -
  have nodes: "\<forall>path. hasRetainedNode path (retainedRootFor subtopics st')
         \<longleftrightarrow> hasRetainedNode path R \<or> prefix path subtopics"
    unfolding st'_def R_def
    by (simp add: setRetainedMessage_selected [of t subtopics "[]" q st] retainedRootFor_with
        hasRetainedNode_setRetainedMessageFrom)
  have none: "st' = withRetainedRootFor subtopics (ensurePath subtopics R) st"
    if "\<forall>m \<in> set (retainedAt subtopics R). rm_topic m \<noteq> t"
    using setRetainedMessageFrom_no_entry [OF that [unfolded R_def], of q "retainedMessageCount st"]
    unfolding st'_def R_def
    by (simp add: setRetainedMessage_selected [of t subtopics "[]" q st] withRetainedRootFor_count)
  have same: "st' = st"
    if "\<forall>m \<in> set (retainedAt subtopics R). rm_topic m \<noteq> t" and "hasRetainedNode subtopics R"
    using none [OF that(1)] ensurePath_existing [OF that(2)] withRetainedRootFor_same [where subtopics = subtopics and st = st]
    by (simp add: R_def withRetainedRootFor_count)
  have entry: "retainedRootFor subtopics st' = eraseTopicAt subtopics t R"
    if "\<exists>m \<in> set (retainedAt subtopics R). rm_topic m = t"
    using setRetainedMessageFrom_entry [OF that [unfolded R_def], of q "retainedMessageCount st"]
    unfolding st'_def R_def
    by (simp add: setRetainedMessage_selected [of t subtopics "[]" q st] retainedRootFor_with)
  from nodes none same entry show ?thesis by blast
qed

text \<open>
  C4, amended. Setting the empty payload at topic \<open>t\<close> changes nothing outside the
  tree of retained messages that \<open>t\<close>'s subtopics select, and in that tree:
  \<^item> the message of topic \<open>t\<close> is removed from the node of \<open>t\<close>'s path and the
    messages stored at every other path are as they were;
  \<^item> the nodes afterwards are the nodes before and the nodes of \<open>t\<close>'s path: nothing
    is created off that path;
  \<^item> when nothing is retained at \<open>t\<close>, the tree afterwards is the tree before with the
    missing nodes of \<open>t\<close>'s path added, empty, and the count is unchanged; when all of
    \<open>t\<close>'s path exists already, the store is unchanged;
  \<^item> when a message is retained at \<open>t\<close>, the tree afterwards is the tree before with
    that message taken out: no node is created.
  In every case \<open>retainedMessageCount\<close>, when it was the number of stored payloads
  before, is the number of stored payloads after (as 64-bit values).
\<close>

theorem setRetainedMessage_empty_payload:
  fixes t :: string and subtopics :: "string list" and q :: "8 word" and st :: SubscriptionStore
  defines "st' \<equiv> setRetainedMessage t subtopics [] q st"
    and "R \<equiv> retainedRootFor subtopics st"
  shows
    "(\<forall>path. retainedAt path (retainedMessagesRoot st') =
        (if \<not> dollarSubtopics subtopics \<and> path = subtopics
         then filter (\<lambda>m. rm_topic m \<noteq> t) (retainedAt path (retainedMessagesRoot st))
         else retainedAt path (retainedMessagesRoot st)))
     \<and> (\<forall>path. retainedAt path (retainedMessagesRootDollar st') =
        (if dollarSubtopics subtopics \<and> path = subtopics
         then filter (\<lambda>m. rm_topic m \<noteq> t) (retainedAt path (retainedMessagesRootDollar st))
         else retainedAt path (retainedMessagesRootDollar st)))
     \<and> (retainedMessageCount st = of_nat (storedPayloads st) \<longrightarrow>
          retainedMessageCount st' = of_nat (storedPayloads st'))
     \<and> root st' = root st
     \<and> rootDollar st' = rootDollar st
     \<and> sessionsById st' = sessionsById st
     \<and> retainedRootOther subtopics st' = retainedRootOther subtopics st
     \<and> (\<forall>path. hasRetainedNode path (retainedRootFor subtopics st')
           \<longleftrightarrow> hasRetainedNode path R \<or> prefix path subtopics)
     \<and> ((\<forall>m \<in> set (retainedAt subtopics R). rm_topic m \<noteq> t) \<longrightarrow>
          st' = withRetainedRootFor subtopics (ensurePath subtopics R) st)
     \<and> ((\<forall>m \<in> set (retainedAt subtopics R). rm_topic m \<noteq> t) \<and> hasRetainedNode subtopics R \<longrightarrow>
          st' = st)
     \<and> ((\<exists>m \<in> set (retainedAt subtopics R). rm_topic m = t) \<longrightarrow>
          retainedRootFor subtopics st' = eraseTopicAt subtopics t R)"
  unfolding st'_def R_def
  using retained_messages_after_empty_payload
      [where t = t and subtopics = subtopics and q = q and st = st]
    setRetainedMessage_frame [where t = t and subtopics = subtopics and p = "[]" and q = q and st = st]
    setRetainedMessage_structure [where t = t and subtopics = subtopics and q = q and st = st]
  by (intro conjI) (elim conjE, assumption)+

lemma ex_store_retained_eq:
  "ex_store_retained = ex_store
     \<lparr>retainedMessagesRoot := RetainedMessageNode []
        [(''home'', RetainedMessageNode []
           [(''light'', RetainedMessageNode
              [\<lparr>rm_topic = ''home/light'', rm_payload = ''on'', rm_qos = 1\<rparr>] [])])],
      retainedMessageCount := 1\<rparr>"
  by (simp add: ex_store_retained_def setRetainedMessage_def dollarSubtopics_def ex_store_def
      newSubscriptionStore_def newRetainedMessageNode_def addPayload_def)

theorem setRetainedMessage_empty_payload_witness:
  "retainedAt [''home'', ''light''] (retainedMessagesRoot ex_store_retained)
     = [\<lparr>rm_topic = ''home/light'', rm_payload = ''on'', rm_qos = 1\<rparr>]
   \<and> retainedMessageCount ex_store_retained = of_nat (storedPayloads ex_store_retained)
   \<and> retainedAt [''home'', ''light'']
        (retainedMessagesRoot
          (setRetainedMessage ''home/light'' [''home'', ''light''] [] 0 ex_store_retained)) = []
   \<and> retainedMessageCount
        (setRetainedMessage ''home/light'' [''home'', ''light''] [] 0 ex_store_retained)
       = of_nat (storedPayloads
           (setRetainedMessage ''home/light'' [''home'', ''light''] [] 0 ex_store_retained))
   \<and> retainedMessagesRoot
        (setRetainedMessage ''home/light'' [''home'', ''light''] [] 0 ex_store_retained)
       = RetainedMessageNode []
           [(''home'', RetainedMessageNode [] [(''light'', RetainedMessageNode [] [])])]
   \<and> retainedAt [''home''] (retainedMessagesRoot ex_store_retained) = []
   \<and> hasRetainedNode [''home''] (retainedMessagesRoot ex_store_retained)
   \<and> setRetainedMessage ''home'' [''home''] [] 0 ex_store_retained = ex_store_retained
   \<and> retainedAt [''home'', ''door''] (retainedMessagesRoot ex_store_retained) = []
   \<and> \<not> hasRetainedNode [''home'', ''door''] (retainedMessagesRoot ex_store_retained)
   \<and> setRetainedMessage ''home/door'' [''home'', ''door''] [] 0 ex_store_retained
       = ex_store_retained
           \<lparr>retainedMessagesRoot := RetainedMessageNode []
              [(''home'', RetainedMessageNode []
                 [(''light'', RetainedMessageNode
                    [\<lparr>rm_topic = ''home/light'', rm_payload = ''on'', rm_qos = 1\<rparr>] []),
                  (''door'', RetainedMessageNode [] [])])]\<rparr>"
proof -
  have rt: "retainedMessagesRoot ex_store_retained =
      RetainedMessageNode []
        [(''home'', RetainedMessageNode []
           [(''light'', RetainedMessageNode
              [\<lparr>rm_topic = ''home/light'', rm_payload = ''on'', rm_qos = 1\<rparr>] [])])]"
    by (simp add: ex_store_retained_eq)
  have cnt: "retainedMessageCount ex_store_retained = of_nat (storedPayloads ex_store_retained)"
    by (simp add: ex_store_retained_eq storedPayloads_def ex_store_def newSubscriptionStore_def
        newRetainedMessageNode_def)
  have sel: "retainedRootFor [''home'', ''light''] s = retainedMessagesRoot s"
    "retainedRootFor [''home''] s = retainedMessagesRoot s"
    "retainedRootFor [''home'', ''door''] s = retainedMessagesRoot s"
    "\<not> dollarSubtopics [''home'', ''light'']" for s
    by (simp_all add: retainedRootFor_def dollarSubtopics_def)
  have at1: "retainedAt [''home'', ''light''] (retainedMessagesRoot ex_store_retained)
     = [\<lparr>rm_topic = ''home/light'', rm_payload = ''on'', rm_qos = 1\<rparr>]"
    by (simp add: rt)
  have at2: "retainedAt [''home''] (retainedMessagesRoot ex_store_retained) = []"
    and has2: "hasRetainedNode [''home''] (retainedMessagesRoot ex_store_retained)"
    and at3: "retainedAt [''home'', ''door''] (retainedMessagesRoot ex_store_retained) = []"
    and has3: "\<not> hasRetainedNode [''home'', ''door''] (retainedMessagesRoot ex_store_retained)"
    by (simp_all add: rt)
  have er: "eraseTopicAt [''home'', ''light''] ''home/light'' (retainedMessagesRoot ex_store_retained)
      = RetainedMessageNode []
           [(''home'', RetainedMessageNode [] [(''light'', RetainedMessageNode [] [])])]"
    by (simp add: rt)
  have en: "withRetainedRootFor [''home'', ''door'']
        (ensurePath [''home'', ''door''] (retainedMessagesRoot ex_store_retained)) ex_store_retained
      = ex_store_retained
           \<lparr>retainedMessagesRoot := RetainedMessageNode []
              [(''home'', RetainedMessageNode []
                 [(''light'', RetainedMessageNode
                    [\<lparr>rm_topic = ''home/light'', rm_payload = ''on'', rm_qos = 1\<rparr>] []),
                  (''door'', RetainedMessageNode [] [])])]\<rparr>"
    by (simp add: rt withRetainedRootFor_def dollarSubtopics_def newRetainedMessageNode_def)
  note del = retainedAt.simps hasRetainedNode.simps ensurePath.simps eraseTopicAt.simps
  note T1 = setRetainedMessage_empty_payload
      [where t = "''home/light''" and subtopics = "[''home'', ''light'']" and q = 0
        and st = ex_store_retained]
  from T1 have "(\<exists>m \<in> set (retainedAt [''home'', ''light'']
          (retainedRootFor [''home'', ''light''] ex_store_retained)). rm_topic m = ''home/light'') \<longrightarrow>
      retainedRootFor [''home'', ''light'']
        (setRetainedMessage ''home/light'' [''home'', ''light''] [] 0 ex_store_retained)
      = eraseTopicAt [''home'', ''light''] ''home/light''
          (retainedRootFor [''home'', ''light''] ex_store_retained)"
    by (elim conjE) assumption
  with at1 er
  have w1c: "retainedMessagesRoot
        (setRetainedMessage ''home/light'' [''home'', ''light''] [] 0 ex_store_retained)
       = RetainedMessageNode []
           [(''home'', RetainedMessageNode [] [(''light'', RetainedMessageNode [] [])])]"
    by (simp add: sel del: del)
  from T1 have "retainedMessageCount ex_store_retained = of_nat (storedPayloads ex_store_retained) \<longrightarrow>
      retainedMessageCount
        (setRetainedMessage ''home/light'' [''home'', ''light''] [] 0 ex_store_retained)
       = of_nat (storedPayloads
           (setRetainedMessage ''home/light'' [''home'', ''light''] [] 0 ex_store_retained))"
    by (elim conjE) assumption
  with cnt
  have w1b: "retainedMessageCount
        (setRetainedMessage ''home/light'' [''home'', ''light''] [] 0 ex_store_retained)
       = of_nat (storedPayloads
           (setRetainedMessage ''home/light'' [''home'', ''light''] [] 0 ex_store_retained))"
    by simp
  have w1a: "retainedAt [''home'', ''light'']
        (retainedMessagesRoot
          (setRetainedMessage ''home/light'' [''home'', ''light''] [] 0 ex_store_retained)) = []"
    by (simp add: w1c)
  note w1 = w1a w1b w1c
  note T2 = setRetainedMessage_empty_payload
      [where t = "''home''" and subtopics = "[''home'']" and q = 0 and st = ex_store_retained]
  from T2 have "(\<forall>m \<in> set (retainedAt [''home''] (retainedRootFor [''home''] ex_store_retained)).
          rm_topic m \<noteq> ''home'')
        \<and> hasRetainedNode [''home''] (retainedRootFor [''home''] ex_store_retained) \<longrightarrow>
      setRetainedMessage ''home'' [''home''] [] 0 ex_store_retained = ex_store_retained"
    by (elim conjE) assumption
  with at2 has2
  have w2: "setRetainedMessage ''home'' [''home''] [] 0 ex_store_retained = ex_store_retained"
    by (simp add: sel del: del)
  note T3 = setRetainedMessage_empty_payload
      [where t = "''home/door''" and subtopics = "[''home'', ''door'']" and q = 0
        and st = ex_store_retained]
  from T3 have "(\<forall>m \<in> set (retainedAt [''home'', ''door'']
          (retainedRootFor [''home'', ''door''] ex_store_retained)). rm_topic m \<noteq> ''home/door'') \<longrightarrow>
      setRetainedMessage ''home/door'' [''home'', ''door''] [] 0 ex_store_retained
      = withRetainedRootFor [''home'', ''door'']
          (ensurePath [''home'', ''door''] (retainedRootFor [''home'', ''door''] ex_store_retained))
          ex_store_retained"
    by (elim conjE) assumption
  with at3 en
  have w3: "setRetainedMessage ''home/door'' [''home'', ''door''] [] 0 ex_store_retained
       = ex_store_retained
           \<lparr>retainedMessagesRoot := RetainedMessageNode []
              [(''home'', RetainedMessageNode []
                 [(''light'', RetainedMessageNode
                    [\<lparr>rm_topic = ''home/light'', rm_payload = ''on'', rm_qos = 1\<rparr>] []),
                  (''door'', RetainedMessageNode [] [])])]\<rparr>"
    by (simp add: sel del: del)
  from at1 cnt w1 at2 has2 w2 at3 has3 w3 show ?thesis by simp
qed

subsection \<open>Publishing\<close>

lemma ex_store_pound_root:
  "root ex_store_pound =
     SubscriptionNode ''root'' []
       [(''a'', SubscriptionNode ''a'' [] [] None
          (Some (SubscriptionNode ''#'' [\<lparr>session = 1, qos = 1\<rparr>] [] None None)))]
       None None"
  by (simp add: ex_store_pound_def addSubscription_def getDeepestNode_def ex_store_def newSubscriptionStore_def
      newSubscriptionNode_def addSubscriber_def)

text \<open>
  C3, at the failing input. \<open>alice\<close>, whose session is live, is subscribed to
  \<open>a/#\<close>. Under the MQTT rules the filter matches the topic \<open>a\<close>, but a publish
  to \<open>a\<close> writes to no session; a publish to \<open>a/b\<close> reaches her once.
\<close>

theorem queuePacketAtSubscribers_pound_parent_level:
  "mqttMatches [''a'', ''#''] [''a'']
   \<and> nodeAt [''a'', ''#''] (root ex_store_pound)
       = Some (SubscriptionNode ''#'' [\<lparr>session = 1, qos = 1\<rparr>] [] None None)
   \<and> ex_heap 1 = Some \<lparr>client_id = ''alice''\<rparr>
   \<and> queuePacketAtSubscribers ex_heap [''a''] False ex_store_pound = []
   \<and> queuePacketAtSubscribers ex_heap [''a'', ''b''] False ex_store_pound = [\<lparr>session = 1, qos = 1\<rparr>]"
  by (simp add: queuePacketAtSubscribers_def ex_store_pound_root publishNonRecursively_def
      getChildren_def ex_heap_def)

lemma matching_simps:
  "matching P t [] = []"
  "matching P t (xs @ ys) = matching P t xs @ matching P t ys"
  by (simp_all add: matching_def)

lemma matching_direct_Nil: "matching P [] (map (Pair []) subs) = filter P subs"
  by (induction subs) (auto simp: matching_def)

lemma matching_direct_Cons: "matching P (s # ss) (map (Pair []) subs) = []"
  by (induction subs) (auto simp: matching_def)

lemma matching_prefix_Nil: "matching P [] (prefixEntries k es) = []"
  by (induction es) (auto simp: matching_def prefixEntries_def)

lemma matching_prefix_literal:
  "k \<noteq> ''+'' \<Longrightarrow> k \<noteq> ''#'' \<Longrightarrow>
   matching P (s # ss) (prefixEntries k es) = (if k = s then matching P ss es else [])"
  by (induction es) (auto simp: matching_def prefixEntries_def)

lemma matching_prefix_plus: "matching P (s # ss) (prefixEntries ''+'' es) = matching P ss es"
  by (induction es) (auto simp: matching_def prefixEntries_def)

lemma codeMatches_Nil: "codeMatches f [] \<longleftrightarrow> f = []"
  by (cases f) simp_all

lemma matching_prefix_pound: "matching P (s # ss) (prefixEntries ''#'' es) = matching P [] es"
  by (induction es) (auto simp: matching_def prefixEntries_def codeMatches_Nil)

lemma matching_children_Nil:
  "matching P [] (concat (map (\<lambda>pair. prefixEntries (fst pair) (treeEntries (snd pair))) ch)) = []"
  by (induction ch) (simp_all add: matching_simps matching_prefix_Nil)

lemma matching_Nil: "matching P [] (treeEntries n) = filter P (subscribers n)"
  by (cases n)
    (simp add: matching_simps matching_direct_Nil matching_children_Nil matching_prefix_Nil
      split: option.splits)

lemma matchingLive_Nil: "matchingLive h [] n = publishNonRecursively h (subscribers n)"
  unfolding matchingLive_def publishNonRecursively_def by (rule matching_Nil)

lemma matching_children:
  assumes "distinct (map fst ch)"
    and "\<forall>pair \<in> set ch. fst pair \<noteq> ''+'' \<and> fst pair \<noteq> ''#''"
  shows "matching P (s # ss) (concat (map (\<lambda>pair. prefixEntries (fst pair) (treeEntries (snd pair))) ch))
         = (case map_of ch s of None \<Rightarrow> [] | Some c \<Rightarrow> matching P ss (treeEntries c))"
  using assms
proof (induction ch)
  case Nil
  show ?case by (simp add: matching_simps)
next
  case (Cons pair ch)
  obtain k c where pair: "pair = (k, c)" by (cases pair)
  from Cons.prems have k: "k \<noteq> ''+''" "k \<noteq> ''#''" and notin: "k \<notin> fst ` set ch"
    and d: "distinct (map fst ch)"
    and rest: "\<forall>pair \<in> set ch. fst pair \<noteq> ''+'' \<and> fst pair \<noteq> ''#''"
    by (simp_all add: pair)
  note ih = Cons.IH [OF d rest]
  have hd: "matching P (s # ss) (prefixEntries k (treeEntries c)) =
      (if k = s then matching P ss (treeEntries c) else [])"
    using k by (rule matching_prefix_literal)
  show ?case
  proof (cases "k = s")
    case True
    with notin have "map_of ch s = None" by (simp add: map_of_eq_None_iff)
    with ih hd True show ?thesis
      by (simp add: pair matching_simps)
  next
    case False
    with ih hd show ?thesis
      by (simp add: pair matching_simps)
  qed
qed

lemma matchingLive_Cons:
  assumes "wfNode n"
  shows "matchingLive h (s # ss) n =
           (case map_of (children n) s of None \<Rightarrow> [] | Some c \<Rightarrow> matchingLive h ss c)
           @ (case childrenPlus n of None \<Rightarrow> [] | Some c \<Rightarrow> matchingLive h ss c)
           @ (case childrenPound n of
                None \<Rightarrow> []
              | Some c \<Rightarrow> publishNonRecursively h (subscribers c))"
proof (cases n)
  case (SubscriptionNode st subs ch cplus cpound)
  from assms have d: "distinct (map fst ch)"
    and lit: "\<forall>pair \<in> set ch. fst pair \<noteq> ''+'' \<and> fst pair \<noteq> ''#''"
    by (simp_all add: SubscriptionNode)
  show ?thesis
    unfolding SubscriptionNode matchingLive_def publishNonRecursively_def
    by (simp add: matching_simps matching_direct_Cons matching_children [OF d lit]
        matching_prefix_plus matching_prefix_pound matching_Nil split: option.splits)
qed

lemma publishRecursively_matchingLive:
  "wfNode n \<Longrightarrow> mset (publishRecursively h t n) = mset (matchingLive h t n)"
proof (induction t arbitrary: n)
  case Nil
  show ?case by (simp add: matchingLive_Nil)
next
  case (Cons s ss)
  obtain st subs ch cplus cpound where n: "n = SubscriptionNode st subs ch cplus cpound"
    by (cases n)
  have lit: "mset (publishRecursively h ss c) = mset (matchingLive h ss c)"
    if "map_of ch s = Some c" for c
  proof -
    from that have "(s, c) \<in> set ch" by (rule map_of_SomeD)
    with Cons.prems have "wfNode c" by (auto simp: n)
    then show ?thesis by (rule Cons.IH)
  qed
  have pl: "mset (publishRecursively h ss c) = mset (matchingLive h ss c)"
    if "cplus = Some c" for c
    using Cons.prems that by (intro Cons.IH) (simp add: n)
  from Cons.prems have wf: "wfNode (SubscriptionNode st subs ch cplus cpound)"
    by (simp only: n)
  show ?case
    using lit pl
    by (simp add: n matchingLive_Cons [OF wf] split: option.splits)
qed

subsection \<open>The sweep\<close>

lemma allLive_Nil: "allLive h []"
  by (simp add: allLive_def)

lemma allLive_append: "allLive h (xs @ ys) \<longleftrightarrow> allLive h xs \<and> allLive h ys"
  by (auto simp: allLive_def)

lemma allLive_filter: "allLive h (filter (\<lambda>sub. h (session sub) \<noteq> None) subs)"
  by (simp add: allLive_def)

lemma hasLive_if_count:
  "allLive h (allSubscriptions n) \<Longrightarrow> 0 < length (allSubscriptions n) \<Longrightarrow> hasLiveSubscriber h n"
  by (cases "allSubscriptions n") (auto simp: allLive_def hasLiveSubscriber_def)

lemma cleanSubscriptions_result:
  "cleanSubscriptions h n = (cnt, n') \<Longrightarrow>
     cnt = int (length (allSubscriptions n')) \<and> allLive h (allSubscriptions n') \<and> pruned h n'"
  "cleanChildren h ch = (cnt, ch') \<Longrightarrow>
     cnt = int (length (concat (map (\<lambda>pair. allSubscriptions (snd pair)) ch')))
     \<and> allLive h (concat (map (\<lambda>pair. allSubscriptions (snd pair)) ch'))
     \<and> (\<forall>pair \<in> set ch'. hasLiveSubscriber h (snd pair) \<and> pruned h (snd pair))"
  "cleanWildcard h w = (cnt, w') \<Longrightarrow>
     cnt = int (length (case w' of None \<Rightarrow> [] | Some c \<Rightarrow> allSubscriptions c))
     \<and> allLive h (case w' of None \<Rightarrow> [] | Some c \<Rightarrow> allSubscriptions c)
     \<and> (case w' of None \<Rightarrow> True | Some c \<Rightarrow> hasLiveSubscriber h c \<and> pruned h c)"
proof (induction h n and h ch and h w arbitrary: cnt n' and cnt ch' and cnt w'
    rule: cleanSubscriptions_cleanChildren_cleanWildcard.induct)
  case (1 h st subs ch cplus cpound)
  obtain a ch1 where a: "cleanChildren h ch = (a, ch1)" by (cases "cleanChildren h ch")
  obtain b p1 where b: "cleanWildcard h cplus = (b, p1)" by (cases "cleanWildcard h cplus")
  obtain c q1 where c: "cleanWildcard h cpound = (c, q1)" by (cases "cleanWildcard h cpound")
  note A = "1.IH"(1) [OF a]
  note B = "1.IH"(2) [OF a [symmetric] refl b]
  note C = "1.IH"(3) [OF a [symmetric] refl b [symmetric] refl c]
  from "1.prems" a b c
  have n': "n' = SubscriptionNode st (filter (\<lambda>sub. h (session sub) \<noteq> None) subs) ch1 p1 q1"
    and cnt: "cnt = int (length (filter (\<lambda>sub. h (session sub) \<noteq> None) subs)) + (a + b + c)"
    by (simp_all add: Let_def)
  show ?case
    using A B C allLive_filter [of h subs] by (simp add: n' cnt allLive_append)
next
  case (2 h)
  then show ?case by (auto simp: allLive_Nil)
next
  case (3 h key c rest)
  obtain n c1 where n: "cleanSubscriptions h c = (n, c1)" by (cases "cleanSubscriptions h c")
  obtain m rest1 where m: "cleanChildren h rest = (m, rest1)" by (cases "cleanChildren h rest")
  note N = "3.IH"(1) [OF n]
  note M = "3.IH"(2) [OF n [symmetric] refl m]
  from "3.prems" n m
  have ch': "ch' = (if n > 0 then (key, c1) # rest1 else rest1)" and cnt: "cnt = n + m"
    by auto
  show ?case
  proof (cases "n > 0")
    case True
    with N have "hasLiveSubscriber h c1" using hasLive_if_count by simp
    with True N M show ?thesis by (simp add: ch' cnt allLive_append)
  next
    case False
    with N have "n = 0" by simp
    with M show ?thesis by (simp add: ch' cnt)
  qed
next
  case (4 h)
  then show ?case by (auto simp: allLive_Nil)
next
  case (5 h c)
  obtain n c1 where n: "cleanSubscriptions h c = (n, c1)" by (cases "cleanSubscriptions h c")
  note N = "5.IH" [OF n]
  from "5.prems" n have w': "w' = (if n = 0 then None else Some c1)" and cnt: "cnt = n"
    by auto
  show ?case
  proof (cases "n = 0")
    case True
    then show ?thesis by (simp add: w' cnt allLive_Nil)
  next
    case False
    with N have "hasLiveSubscriber h c1" using hasLive_if_count by simp
    with False N show ?thesis by (simp add: w' cnt)
  qed
qed


lemma removeExpiredSessionsClients_root_pruned:
  "pruned (snd (removeExpiredSessionsClients hasExpired held sh))
     (root (fst (removeExpiredSessionsClients hasExpired held sh)))"
proof -
  obtain reg h' where e: "eraseExpired hasExpired held (sessionsById (fst sh)) (snd sh) = (reg, h')"
    by (cases "eraseExpired hasExpired held (sessionsById (fst sh)) (snd sh)")
  obtain n r where c: "cleanSubscriptions h' (root (fst sh)) = (n, r)"
    by (cases "cleanSubscriptions h' (root (fst sh))")
  from cleanSubscriptions_result(1) [OF c] have "pruned h' r" by simp
  with e c show ?thesis by (simp add: removeExpiredSessionsClients_def)
qed

lemma removeExpiredSessionsClients_rootDollar:
  "rootDollar (fst (removeExpiredSessionsClients hasExpired held sh)) = rootDollar (fst sh)"
  by (simp add: removeExpiredSessionsClients_def split: prod.splits)

lemma ex_store_sys_rootDollar:
  "rootDollar ex_store_sys =
     SubscriptionNode ''rootDollar'' []
       [(''$SYS'', SubscriptionNode ''$SYS'' []
          [(''x'', SubscriptionNode ''x'' [] [] None None)] None None)]
       None None"
proof -
  have sp: "ex_topic_split ''$SYS/x'' CHR ''/'' = [''$SYS'', ''x'']"
    by code_simp
  have e: "Subscription_eq ex_heap \<lparr>session = Suc 0, qos = 0\<rparr> \<lparr>session = Suc 0, qos = 0\<rparr>"
    by (simp add: Subscription_eq_def ex_heap_def)
  show ?thesis
    by (simp add: ex_store_sys_def removeSubscription_def addSubscription_def getDeepestNode_def sp ex_store_def
        newSubscriptionStore_def newSubscriptionNode_def addSubscriber_def removeSubscriber_def
        getChildren_def Let_def e)
qed

text \<open>
  C8, at the failing input. \<open>alice\<close> subscribes to \<open>$SYS/x\<close> and unsubscribes;
  then the sweep runs. \<open>removeExpiredSessionsClients\<close> cleans \<open>root\<close> only, so
  the nodes \<open>$SYS\<close> and \<open>x\<close> stay under \<open>rootDollar\<close> although no
  subscription is left in that tree.
\<close>

theorem removeExpiredSessionsClients_leaves_dollar_nodes:
  "rootDollar (fst (removeExpiredSessionsClients ex_none_expired {} (ex_store_sys, ex_heap)))
     = SubscriptionNode ''rootDollar'' []
         [(''$SYS'', SubscriptionNode ''$SYS'' []
            [(''x'', SubscriptionNode ''x'' [] [] None None)] None None)]
         None None
   \<and> allSubscriptions
         (rootDollar (fst (removeExpiredSessionsClients ex_none_expired {} (ex_store_sys, ex_heap)))) = []
   \<and> \<not> pruned (snd (removeExpiredSessionsClients ex_none_expired {} (ex_store_sys, ex_heap)))
         (rootDollar (fst (removeExpiredSessionsClients ex_none_expired {} (ex_store_sys, ex_heap))))"
  by (simp add: removeExpiredSessionsClients_rootDollar ex_store_sys_rootDollar hasLiveSubscriber_def)

subsection \<open>What the matching of the code covers\<close>

text \<open>
  The matching of the code is the matching of MQTT but for one case: a filter that ends
  in \<open>#\<close> and whose levels before the \<open>#\<close> match the whole topic, the \<open>#\<close>
  standing for no level at all.
\<close>

lemma codeMatches_imp_mqttMatches: "codeMatches f t \<Longrightarrow> mqttMatches f t"
  by (induction f t rule: codeMatches.induct) (auto split: if_splits)

lemma mqttMatches_iff_codeMatches:
  "mqttMatches f t \<longleftrightarrow>
     codeMatches f t
     \<or> (f \<noteq> [] \<and> last f = ''#'' \<and> ''#'' \<notin> set (butlast f) \<and> codeMatches (butlast f) t)"
proof (induction f t rule: mqttMatches.induct)
  case 1
  show ?case by simp
next
  case (2 s ss)
  show ?case by simp
next
  case (3 f fs)
  show ?case by (cases fs) auto
next
  case (4 f fs s ss)
  show ?case
  proof (cases "f = ''#''")
    case True
    then show ?thesis by (cases fs) auto
  next
    case False
    with 4 show ?thesis by (cases fs) auto
  qed
qed

text \<open>
  \<open>addSubscription\<close>, \<open>removeSubscription\<close> and the sweep keep the shape of the
  trees, so that in every store they lead to from the new store a publish writes once to
  each live subscription that matches, as the code matches.
\<close>

lemma set_setChild: "set (setChild k v kvs) \<subseteq> insert (k, v) (set kvs)"
  by (induction kvs) (auto split: if_splits)

lemma fst_set_setChild: "fst ` set (setChild k v kvs) = insert k (fst ` set kvs)"
proof (induction kvs)
  case Nil
  show ?case by simp
next
  case (Cons kv kvs)
  obtain k' v' where kv: "kv = (k', v')" by (cases kv)
  show ?case
  proof (cases "k' = k")
    case True
    then show ?thesis by (simp add: kv)
  next
    case False
    with Cons.IH show ?thesis by (auto simp: kv)
  qed
qed

lemma distinct_setChild:
  "distinct (map fst kvs) \<Longrightarrow> distinct (map fst (setChild k v kvs))"
proof (induction kvs)
  case Nil
  show ?case by simp
next
  case (Cons kv kvs)
  obtain k' v' where kv: "kv = (k', v')" by (cases kv)
  show ?case
  proof (cases "k' = k")
    case True
    with Cons.prems show ?thesis by (simp add: kv)
  next
    case False
    with Cons show ?thesis by (simp add: kv fst_set_setChild)
  qed
qed

lemma wfNode_new: "wfNode (newSubscriptionNode s)"
  by (simp add: newSubscriptionNode_def)

lemma wfNode_addSubscriber: "wfNode (addSubscriber h ses q n) = wfNode n"
  by (cases n) (simp add: addSubscriber_def Let_def)

lemma wfNode_removeSubscriber: "wfNode (removeSubscriber h ses n) = wfNode n"
  by (cases n) (simp add: removeSubscriber_def Let_def)


lemma wfNode_getDeepestNode:
  assumes "\<And>m. wfNode m \<Longrightarrow> wfNode (k m)"
  shows "wfNode n \<Longrightarrow> wfNode (getDeepestNodeFrom ss k n)"
proof (induction ss arbitrary: n)
  case Nil
  then show ?case using assms by simp
next
  case (Cons s ss)
  obtain st subs ch cplus cpound where n: "n = SubscriptionNode st subs ch cplus cpound"
    by (cases n)
  have sub: "wfNode (getDeepestNodeFrom ss k (case w of None \<Rightarrow> newSubscriptionNode s | Some c \<Rightarrow> c))"
    if "case w of None \<Rightarrow> True | Some c \<Rightarrow> wfNode c" for w
    using that by (intro Cons.IH) (simp add: wfNode_new split: option.splits)
  from Cons.prems have wplus: "case cplus of None \<Rightarrow> True | Some c \<Rightarrow> wfNode c"
    and wpound: "case cpound of None \<Rightarrow> True | Some c \<Rightarrow> wfNode c"
    and d: "distinct (map fst ch)"
    and lit: "\<forall>pair \<in> set ch. fst pair \<noteq> ''+'' \<and> fst pair \<noteq> ''#'' \<and> wfNode (snd pair)"
    by (simp_all add: n)
  have wlit: "case map_of ch s of None \<Rightarrow> True | Some c \<Rightarrow> wfNode c"
  proof (cases "map_of ch s")
    case None
    then show ?thesis by simp
  next
    case (Some c)
    then have "(s, c) \<in> set ch" by (rule map_of_SomeD)
    with lit have "wfNode (snd (s, c))" by blast
    with Some show ?thesis by simp
  qed
  show ?case
  proof (cases "s = ''#'' \<or> s = ''+''")
    case True
    then show ?thesis
      using Cons.prems sub [OF wplus] sub [OF wpound] by (auto simp: n)
  next
    case False
    have "\<forall>pair \<in> set (setChild s
        (getDeepestNodeFrom ss k (case map_of ch s of None \<Rightarrow> newSubscriptionNode s | Some c \<Rightarrow> c)) ch).
        fst pair \<noteq> ''+'' \<and> fst pair \<noteq> ''#'' \<and> wfNode (snd pair)"
      using set_setChild [of s _ ch] lit sub [OF wlit] False by fastforce
    with False d wplus wpound show ?thesis
      by (simp add: n distinct_setChild)
  qed
qed

lemma wfNode_walkExisting:
  assumes "\<And>m. wfNode m \<Longrightarrow> wfNode (k m)"
  shows "wfNode n \<Longrightarrow> walkExisting ss k n = Some n' \<Longrightarrow> wfNode n'"
proof (induction ss arbitrary: n n')
  case Nil
  then show ?case using assms by auto
next
  case (Cons s ss)
  obtain st subs ch cplus cpound where n: "n = SubscriptionNode st subs ch cplus cpound"
    by (cases n)
  from Cons.prems(1) have wplus: "case cplus of None \<Rightarrow> True | Some c \<Rightarrow> wfNode c"
    and wpound: "case cpound of None \<Rightarrow> True | Some c \<Rightarrow> wfNode c"
    and d: "distinct (map fst ch)"
    and lit: "\<forall>pair \<in> set ch. fst pair \<noteq> ''+'' \<and> fst pair \<noteq> ''#'' \<and> wfNode (snd pair)"
    by (simp_all add: n)
  show ?case
  proof (cases "s = ''#'' \<or> s = ''+''")
    case True
    with Cons.prems(2) wplus wpound d lit Cons.IH show ?thesis
      by (auto simp: n split: option.splits if_splits)
  next
    case False
    with Cons.prems(2) obtain c c' where c: "map_of ch s = Some c"
      and w: "walkExisting ss k c = Some c'"
      and n': "n' = SubscriptionNode st subs (setChild s c' ch) cplus cpound"
      by (auto simp: n getChildren_def split: option.splits)
    from c have "(s, c) \<in> set ch" by (rule map_of_SomeD)
    with lit have "wfNode (snd (s, c))" by blast
    then have "wfNode c" by simp
    from Cons.IH [OF this w] have wc': "wfNode c'" .
    have "\<forall>pair \<in> set (setChild s c' ch).
        fst pair \<noteq> ''+'' \<and> fst pair \<noteq> ''#'' \<and> wfNode (snd pair)"
      using set_setChild [of s c' ch] lit wc' False by fastforce
    with d wplus wpound show ?thesis
      by (simp add: n' distinct_setChild)
  qed
qed

lemma wfStore_new: "wfStore newSubscriptionStore"
  by (simp add: wfStore_def newSubscriptionStore_def wfNode_new)

lemma wfStore_addSubscription:
  assumes "wfStore st"
  shows "wfStore (addSubscription h clientid t subtopics q st)"
proof -
  define k where "k = (case map_of (sessionsById st) clientid of
      None \<Rightarrow> (\<lambda>deepestNode. deepestNode) | Some ses \<Rightarrow> addSubscriber h ses q)"
  have k: "wfNode (k m)" if "wfNode m" for m
    using that by (simp add: k_def wfNode_addSubscriber split: option.splits)
  have "wfNode (getDeepestNodeFrom subtopics k r)" if "wfNode r" for r
    using k that by (rule wfNode_getDeepestNode)
  with assms show ?thesis
    by (simp add: wfStore_def addSubscription_def getDeepestNode_def k_def [symmetric])
qed

lemma wfStore_removeSubscription:
  assumes "wfStore st"
  shows "wfStore (removeSubscription split h clientid t st)"
proof -
  define k where "k = (case map_of (sessionsById st) clientid of
      None \<Rightarrow> (\<lambda>deepestNode. deepestNode) | Some ses \<Rightarrow> removeSubscriber h ses)"
  have k: "wfNode (k m)" if "wfNode m" for m
    using that by (simp add: k_def wfNode_removeSubscriber split: option.splits)
  have "wfNode r'" if "wfNode r" and "walkExisting (split t CHR ''/'') k r = Some r'" for r r'
    using k that by (rule wfNode_walkExisting)
  with assms show ?thesis
    by (auto simp: wfStore_def removeSubscription_def Let_def k_def [symmetric]
        split: option.splits)
qed

lemma queuePacketAtSubscribers_matchingLive:
  "wfStore st \<Longrightarrow>
   mset (queuePacketAtSubscribers h t dollar st) =
     mset (matchingLive h t (if dollar then rootDollar st else root st))"
  by (simp add: queuePacketAtSubscribers_def wfStore_def publishRecursively_matchingLive)

lemma nodeAt_treeEntries:
  "nodeAt p n = Some m \<Longrightarrow> sub \<in> set (subscribers m) \<Longrightarrow> (p, sub) \<in> set (treeEntries n)"
proof (induction p arbitrary: n)
  case Nil
  then show ?case by (cases n) auto
next
  case (Cons s p)
  obtain st subs ch cplus cpound where n: "n = SubscriptionNode st subs ch cplus cpound"
    by (cases n)
  from Cons.prems(1) obtain c where c: "nodeAt p c = Some m"
    and which: "(s = ''#'' \<and> cpound = Some c) \<or> (s = ''+'' \<and> cplus = Some c)
       \<or> (s \<noteq> ''#'' \<and> s \<noteq> ''+'' \<and> (s, c) \<in> set ch)"
    by (auto simp: n getChildren_def split: option.splits if_splits dest: map_of_SomeD)
  from Cons.IH [OF c Cons.prems(2)] have "(p, sub) \<in> set (treeEntries c)" .
  then have "(s # p, sub) \<in> set (prefixEntries s (treeEntries c))"
    by (force simp: prefixEntries_def)
  with which show ?case
    by (elim disjE conjE) (simp add: n, simp add: n, force simp: n)
qed


lemma cleanSubscriptions_wfNode:
  "cleanSubscriptions h n = (cnt, n') \<Longrightarrow> wfNode n \<Longrightarrow> wfNode n'"
  "cleanChildren h ch = (cnt, ch') \<Longrightarrow>
     distinct (map fst ch) \<Longrightarrow>
     (\<forall>pair \<in> set ch. fst pair \<noteq> ''+'' \<and> fst pair \<noteq> ''#'' \<and> wfNode (snd pair)) \<Longrightarrow>
     distinct (map fst ch') \<and> fst ` set ch' \<subseteq> fst ` set ch
     \<and> (\<forall>pair \<in> set ch'. fst pair \<noteq> ''+'' \<and> fst pair \<noteq> ''#'' \<and> wfNode (snd pair))"
  "cleanWildcard h w = (cnt, w') \<Longrightarrow>
     (case w of None \<Rightarrow> True | Some c \<Rightarrow> wfNode c) \<Longrightarrow>
     (case w' of None \<Rightarrow> True | Some c \<Rightarrow> wfNode c)"
proof (induction h n and h ch and h w arbitrary: cnt n' and cnt ch' and cnt w'
    rule: cleanSubscriptions_cleanChildren_cleanWildcard.induct)
  case (1 h st subs ch cplus cpound)
  obtain a ch1 where a: "cleanChildren h ch = (a, ch1)" by (cases "cleanChildren h ch")
  obtain b p1 where b: "cleanWildcard h cplus = (b, p1)" by (cases "cleanWildcard h cplus")
  obtain c q1 where c: "cleanWildcard h cpound = (c, q1)" by (cases "cleanWildcard h cpound")
  from "1.prems"(2) have d: "distinct (map fst ch)"
    and lit: "\<forall>pair \<in> set ch. fst pair \<noteq> ''+'' \<and> fst pair \<noteq> ''#'' \<and> wfNode (snd pair)"
    and wp: "case cplus of None \<Rightarrow> True | Some c \<Rightarrow> wfNode c"
    and wq: "case cpound of None \<Rightarrow> True | Some c \<Rightarrow> wfNode c"
    by simp_all
  note A = "1.IH"(1) [OF a d lit]
  note B = "1.IH"(2) [OF a [symmetric] refl b wp]
  note C = "1.IH"(3) [OF a [symmetric] refl b [symmetric] refl c wq]
  from "1.prems"(1) a b c
  have n': "n' = SubscriptionNode st (filter (\<lambda>sub. h (session sub) \<noteq> None) subs) ch1 p1 q1"
    by (simp add: Let_def)
  show ?case
    using A B C by (simp add: n')
next
  case (2 h)
  then show ?case by auto
next
  case (3 h key c rest)
  obtain n c1 where n: "cleanSubscriptions h c = (n, c1)" by (cases "cleanSubscriptions h c")
  obtain m rest1 where m: "cleanChildren h rest = (m, rest1)" by (cases "cleanChildren h rest")
  from "3.prems"(2,3) have wc: "wfNode c" and key: "key \<noteq> ''+''" "key \<noteq> ''#''"
    and notin: "key \<notin> fst ` set rest" and d: "distinct (map fst rest)"
    and lit: "\<forall>pair \<in> set rest. fst pair \<noteq> ''+'' \<and> fst pair \<noteq> ''#'' \<and> wfNode (snd pair)"
    by simp_all
  note N = "3.IH"(1) [OF n wc]
  note M = "3.IH"(2) [OF n [symmetric] refl m d lit]
  from "3.prems"(1) n m
  have ch': "ch' = (if n > 0 then (key, c1) # rest1 else rest1)"
    by auto
  from M notin have "key \<notin> fst ` set rest1" by blast
  with N M key show ?case
    by (auto simp: ch')
next
  case (4 h)
  then show ?case by auto
next
  case (5 h c)
  obtain n c1 where n: "cleanSubscriptions h c = (n, c1)" by (cases "cleanSubscriptions h c")
  from "5.prems"(2) have wc: "wfNode c" by simp
  note N = "5.IH" [OF n wc]
  from "5.prems"(1) n have w': "w' = (if n = 0 then None else Some c1)"
    by auto
  with N show ?case by simp
qed

lemma wfStore_removeExpiredSessionsClients:
  assumes "wfStore (fst sh)"
  shows "wfStore (fst (removeExpiredSessionsClients hasExpired held sh))"
proof -
  obtain reg h' where e: "eraseExpired hasExpired held (sessionsById (fst sh)) (snd sh) = (reg, h')"
    by (cases "eraseExpired hasExpired held (sessionsById (fst sh)) (snd sh)")
  obtain n r where c: "cleanSubscriptions h' (root (fst sh)) = (n, r)"
    by (cases "cleanSubscriptions h' (root (fst sh))")
  from assms cleanSubscriptions_wfNode(1) [OF c] have "wfNode r" by (simp add: wfStore_def)
  with assms e c show ?thesis by (simp add: removeExpiredSessionsClients_def wfStore_def)
qed

end
